theory Spec2Isabelle
  imports Complex_Main
begin

section \<open>Board\<close>

text \<open>
  The source works on \<^verbatim>\<open>number[][]\<close>: a board of side \<open>N\<close> is an array of \<open>N\<close> rows of \<open>N\<close>
  integers, \<open>0\<close> for an empty cell. Rows and columns are counted from \<open>0\<close>.

  A read \<^verbatim>\<open>board[row][col]\<close> is \<open>cellAt\<close>: inside the array it is \<open>Some\<close> of the cell, and
  \<open>None\<close> stands for JavaScript's \<^verbatim>\<open>undefined\<close>, which is different from every number, so that
  \<^verbatim>\<open>board[row][col] === num\<close> is \<open>cellAt board row col = Some num\<close>. (Indexing a row that does
  not exist throws in the source; the solver, the validator and the generator only index rows
  below \<^verbatim>\<open>board.length\<close>.)

  A write \<^verbatim>\<open>board[row][col] = v\<close> is \<open>setCell\<close>. The source only writes cells it has read a
  number from, or cells of the square grid it has just allocated; outside the array \<open>setCell\<close>
  leaves the board as it is.
\<close>

type_synonym board = "int list list"

definition cellAt :: "board \<Rightarrow> nat \<Rightarrow> nat \<Rightarrow> int option" where
  "cellAt board row col =
     (if row < length board \<and> col < length (board ! row) then Some (board ! row ! col) else None)"

definition setCell :: "board \<Rightarrow> nat \<Rightarrow> nat \<Rightarrow> int \<Rightarrow> board" where
  "setCell board row col v = board[row := (board ! row)[col := v]]"

text \<open>
  \<^verbatim>\<open>Math.sqrt(size)\<close>. On a perfect square the floating-point root is the exact integer root,
  which is what \<open>boxSizeOf\<close> computes (the number of \<open>k \<ge> 1\<close> with \<open>k * k \<le> size\<close>). The data model
  only has sides that are perfect squares. For another side the source works with a
  fractional box side and fails when it indexes a row with it; the embedding does not follow
  it there. It agrees with the source on the boards of the data model (\<open>isBoard\<close> below), and
  a theorem stated for every board is to be read on those.
\<close>

definition boxSizeOf :: "nat \<Rightarrow> nat" where
  "boxSizeOf sz = length (filter (\<lambda>k. k * k \<le> sz) [1..<Suc sz])"

text \<open>The invariant of the data model: a square array whose side is a perfect square.\<close>

definition isBoard :: "board \<Rightarrow> bool" where
  "isBoard board =
     (boxSizeOf (length board) * boxSizeOf (length board) = length board \<and>
      list_all (\<lambda>r. length r = length board) board)"

section \<open>Constraint checker\<close>

text \<open>
  \<^verbatim>\<open>isSafe(board, row, col, num)\<close>: three scans, each returning \<open>false\<close> at the first cell equal
  to \<open>num\<close>: the row, the column, and the box whose top-left corner is
  \<open>(row - row % boxSize, col - col % boxSize)\<close>. The function has no assignment: it returns a
  boolean and leaves the board alone, so it is a function from the board to \<open>bool\<close>.
\<close>

definition isSafe :: "board \<Rightarrow> nat \<Rightarrow> nat \<Rightarrow> int \<Rightarrow> bool" where
  "isSafe board row col num =
     (let sz = length board; boxSize = boxSizeOf sz in
      if list_ex (\<lambda>x. cellAt board row x = Some num) [0..<sz] then False
      else if list_ex (\<lambda>x. cellAt board x col = Some num) [0..<sz] then False
      else
        let startRow = row - row mod boxSize; startCol = col - col mod boxSize in
        if list_ex (\<lambda>i. list_ex (\<lambda>j. cellAt board (i + startRow) (j + startCol) = Some num)
                      [0..<boxSize]) [0..<boxSize]
        then False
        else True)"

section \<open>Backtracking solver\<close>

text \<open>
  The two nested \<^verbatim>\<open>for\<close> loops of \<^verbatim>\<open>solve\<close> look for the first cell equal to \<open>0\<close> in row-major
  order; the body of the \<^verbatim>\<open>if\<close> always returns, so only the first such cell is ever used.
\<close>

definition firstEmpty :: "board \<Rightarrow> (nat \<times> nat) option" where
  "firstEmpty board =
     find (\<lambda>(row, col). cellAt board row col = Some 0)
       (List.product [0..<length board] [0..<length board])"

text \<open>
  The closure \<^verbatim>\<open>solve\<close> of \<^verbatim>\<open>solveSudoku\<close> mutates the board and the counter \<^verbatim>\<open>steps\<close>; both are
  passed in and returned. \<open>solve\<close> is one call of the closure: it counts the step and finds the
  first empty cell. \<open>tryNums\<close> is the loop \<^verbatim>\<open>for (num = ...; num <= size; num++)\<close> from \<open>num\<close> on:
  a safe candidate is written, the search recurses on the written board, and a failed
  recursion hands back the board it left, whose cell is cleared before the next candidate.
\<close>

function solve :: "board \<Rightarrow> nat \<Rightarrow> bool \<times> board \<times> nat"
  and tryNums :: "board \<Rightarrow> nat \<Rightarrow> nat \<Rightarrow> nat \<Rightarrow> nat \<Rightarrow> bool \<times> board \<times> nat"
where
  "solve board steps =
     (case firstEmpty board of
        None \<Rightarrow> (True, board, Suc steps)
      | Some (row, col) \<Rightarrow> tryNums board (Suc steps) row col 1)"
| "tryNums board steps row col num =
     (if num \<le> length board then
        (if isSafe board row col (int num) then
           (case solve (setCell board row col (int num)) steps of
              (ok, board', steps') \<Rightarrow>
                if ok then (True, board', steps')
                else tryNums (setCell board' row col 0) steps' row col (Suc num))
         else tryNums board steps row col (Suc num))
      else (False, board, steps))"
  by pat_completeness auto

subsection \<open>Reads and writes\<close>

lemma length_setCell [simp]: "length (setCell b r c v) = length b"
  by (simp add: setCell_def)

lemma cellAt_setCell:
  "cellAt (setCell b r c v) r' c' =
     (if r' = r \<and> c' = c \<and> cellAt b r c \<noteq> None then Some v else cellAt b r' c')"
  by (auto simp: cellAt_def setCell_def nth_list_update)

lemma setCell_setCell [simp]: "setCell (setCell b r c v) r c w = setCell b r c w"
  by (cases "r < length b") (simp_all add: setCell_def list_update_beyond)

lemma setCell_same: "cellAt b r c = Some v \<Longrightarrow> setCell b r c v = b"
  by (auto simp: cellAt_def setCell_def split: if_splits)

lemma setCell_out: "cellAt b r c = None \<Longrightarrow> setCell b r c v = b"
  by (auto simp: cellAt_def setCell_def list_update_beyond split: if_splits)

lemma firstEmpty_Some: "firstEmpty b = Some (r, c) \<Longrightarrow> cellAt b r c = Some 0"
  by (auto simp: firstEmpty_def dest: find_Some_iff[THEN iffD1])

subsection \<open>Termination of the search\<close>

text \<open>
  The search terminates because every recursive call of \<open>solve\<close> is on a board with one empty
  cell fewer. The board the loop continues with comes out of the failed recursive call, so
  the termination proof needs to know first that a failed search hands the board back as it
  got it.
\<close>

definition zeroSet :: "board \<Rightarrow> (nat \<times> nat) set" where
  "zeroSet b = {(r, c). cellAt b r c = Some 0}"

lemma finite_zeroSet [simp]: "finite (zeroSet b)"
proof -
  have "zeroSet b \<subseteq> (\<Union>r\<in>{..<length b}. {r} \<times> {..<length (b ! r)})"
    by (auto simp: zeroSet_def cellAt_def split: if_splits)
  then show ?thesis
    by (rule finite_subset) simp
qed

lemma zeroSet_setCell:
  "zeroSet (setCell b r c v) =
     (if cellAt b r c = None then zeroSet b
      else if v = 0 then insert (r, c) (zeroSet b) else zeroSet b - {(r, c)})"
  by (auto simp: zeroSet_def cellAt_setCell)

lemma solve_fail_partial:
  "solve_tryNums_dom (Inl (b, s)) \<Longrightarrow> solve b s = (False, b', s') \<Longrightarrow> b' = b"
  "solve_tryNums_dom (Inr (b, s, row, col, num)) \<Longrightarrow>
     tryNums b s row col num = (False, b', s') \<Longrightarrow> b' = b \<or> b' = setCell b row col 0"
proof (induction b s and b s row col num arbitrary: b' s' and b' s' rule: solve_tryNums.pinduct)
  case (1 board steps)
  show ?case
  proof (cases "firstEmpty board")
    case None
    with 1 show ?thesis by (simp add: solve.psimps)
  next
    case (Some p)
    obtain row col where p: "p = (row, col)" by (cases p)
    from 1(3) Some p 1(1) have "tryNums board (Suc steps) row col 1 = (False, b', s')"
      by (simp add: solve.psimps)
    from 1(2)[OF Some p[symmetric] this] firstEmpty_Some[OF Some[unfolded p]]
    show ?thesis by (auto simp: setCell_same)
  qed
next
  case (2 board steps row col num)
  show ?case
  proof (cases "num \<le> length board")
    case False
    with 2(1,5) show ?thesis by (simp add: tryNums.psimps)
  next
    case le: True
    show ?thesis
    proof (cases "isSafe board row col (int num)")
      case False
      with le 2(1,5) have "tryNums board steps row col (Suc num) = (False, b', s')"
        by (simp add: tryNums.psimps)
      from 2(4)[OF le False this] show ?thesis .
    next
      case safe: True
      obtain ok b1 s1 where r: "solve (setCell board row col (int num)) steps = (ok, b1, s1)"
        by (cases "solve (setCell board row col (int num)) steps") auto
      show ?thesis
      proof (cases ok)
        case True
        with le safe r 2(1,5) show ?thesis by (simp add: tryNums.psimps)
      next
        case False
        from 2(2)[OF le safe] r False have b1: "b1 = setCell board row col (int num)" by simp
        from le safe r False 2(1,5)
        have "tryNums (setCell b1 row col 0) s1 row col (Suc num) = (False, b', s')"
          by (simp add: tryNums.psimps)
        from 2(3)[OF le safe r[symmetric] refl False this] b1
        show ?thesis by simp
      qed
    qed
  qed
qed

termination solve
proof (relation "inv_image (less_than <*lex*> less_than <*lex*> less_than)
    (case_sum (\<lambda>(b, s). (card (zeroSet b), 1::nat, 0::nat))
       (\<lambda>(b, s, row, col, num).
          (card (zeroSet (setCell b row col 0)),
           if cellAt b row col \<noteq> None \<and> 1 \<le> num then 0 else 2,
           Suc (length b) - num)))", goal_cases)
  case 1
  show ?case by (intro wf_inv_image wf_lex_prod wf_less_than)
next
  case (2 board steps p row col)
  then have "cellAt board row col = Some 0"
    by (auto dest: firstEmpty_Some)
  then show ?case by (simp add: setCell_same)
next
  case (3 board steps row col num)
  show ?case
  proof (cases "cellAt board row col \<noteq> None \<and> 1 \<le> num")
    case True
    have "card (zeroSet board - {(row, col)}) < card (insert (row, col) (zeroSet board))"
    proof (cases "(row, col) \<in> zeroSet board")
      case True
      then have "card (zeroSet board - {(row, col)}) < card (zeroSet board)"
        by (intro card_Diff1_less) simp_all
      with True show ?thesis by (simp add: insert_absorb)
    next
      case False
      then show ?thesis by simp
    qed
    with True show ?thesis by (auto simp: zeroSet_setCell)
  next
    case False
    then show ?thesis by (auto simp: zeroSet_setCell setCell_out)
  qed
next
  case (4 board steps row col num ok y b1 s1)
  from 4(3,4,5) have "solve (setCell board row col (int num)) steps = (False, b1, s1)"
    by simp
  from solve_fail_partial(1)[OF 4(6) this]
  have "b1 = setCell board row col (int num)" .
  with 4(1) show ?case by (auto simp: cellAt_setCell)
next
  case (5 board steps row col num)
  then show ?case by auto
qed

declare solve.simps [simp del] tryNums.simps [simp del]

section \<open>Animated solver\<close>

text \<open>
  The closure \<^verbatim>\<open>solve\<close> of \<^verbatim>\<open>solveSudokuAnimated\<close> is the same search with two calls of
  \<^verbatim>\<open>onUpdate(board)\<close>: one after each placement and one after each cleared placement. The
  callback is an observer (the page copies the board it is given), so a call appends the
  current board to the list \<open>shown\<close>, which is threaded through like the board and the
  counter. The two \<^verbatim>\<open>await\<close>s on a timer only delay the search and are not modelled.
\<close>

function solveAnim :: "board \<Rightarrow> nat \<Rightarrow> board list \<Rightarrow> bool \<times> board \<times> nat \<times> board list"
  and tryNumsAnim ::
    "board \<Rightarrow> nat \<Rightarrow> board list \<Rightarrow> nat \<Rightarrow> nat \<Rightarrow> nat \<Rightarrow> bool \<times> board \<times> nat \<times> board list"
where
  "solveAnim board steps shown =
     (case firstEmpty board of
        None \<Rightarrow> (True, board, Suc steps, shown)
      | Some (row, col) \<Rightarrow> tryNumsAnim board (Suc steps) shown row col 1)"
| "tryNumsAnim board steps shown row col num =
     (if num \<le> length board then
        (if isSafe board row col (int num) then
           (let board1 = setCell board row col (int num); shown1 = shown @ [board1] in
            case solveAnim board1 steps shown1 of
              (ok, board', steps', shown') \<Rightarrow>
                if ok then (True, board', steps', shown')
                else (let board2 = setCell board' row col 0; shown2 = shown' @ [board2] in
                      tryNumsAnim board2 steps' shown2 row col (Suc num)))
         else tryNumsAnim board steps shown row col (Suc num))
      else (False, board, steps, shown))"
  by pat_completeness auto

text \<open>Termination is that of the plain search, with the same measure.\<close>

lemma solveAnim_fail_partial:
  "solveAnim_tryNumsAnim_dom (Inl (b, s, t)) \<Longrightarrow> solveAnim b s t = (False, b', s', t') \<Longrightarrow> b' = b"
  "solveAnim_tryNumsAnim_dom (Inr (b, s, t, row, col, num)) \<Longrightarrow>
     tryNumsAnim b s t row col num = (False, b', s', t') \<Longrightarrow> b' = b \<or> b' = setCell b row col 0"
proof (induction b s t and b s t row col num arbitrary: b' s' t' and b' s' t'
    rule: solveAnim_tryNumsAnim.pinduct)
  case (1 board steps shown)
  show ?case
  proof (cases "firstEmpty board")
    case None
    with 1 show ?thesis by (simp add: solveAnim.psimps)
  next
    case (Some p)
    obtain row col where p: "p = (row, col)" by (cases p)
    from 1(3) Some p 1(1)
    have "tryNumsAnim board (Suc steps) shown row col 1 = (False, b', s', t')"
      by (simp add: solveAnim.psimps)
    from 1(2)[OF Some p[symmetric] this] firstEmpty_Some[OF Some[unfolded p]]
    show ?thesis by (auto simp: setCell_same)
  qed
next
  case (2 board steps shown row col num)
  show ?case
  proof (cases "num \<le> length board")
    case False
    with 2(1,5) show ?thesis by (simp add: tryNumsAnim.psimps)
  next
    case le: True
    show ?thesis
    proof (cases "isSafe board row col (int num)")
      case False
      with le 2(1,5) have "tryNumsAnim board steps shown row col (Suc num) = (False, b', s', t')"
        by (simp add: tryNumsAnim.psimps)
      from 2(4)[OF le False this] show ?thesis .
    next
      case safe: True
      define board1 where "board1 = setCell board row col (int num)"
      define shown1 where "shown1 = shown @ [board1]"
      obtain ok b1 s1 t1 where r: "solveAnim board1 steps shown1 = (ok, b1, s1, t1)"
        by (cases "solveAnim board1 steps shown1") auto
      show ?thesis
      proof (cases ok)
        case True
        with le safe r 2(1,5) show ?thesis
          by (simp add: tryNumsAnim.psimps Let_def board1_def shown1_def)
      next
        case False
        from 2(2)[OF le safe board1_def shown1_def] r False have b1: "b1 = board1" by simp
        define board2 where "board2 = setCell b1 row col 0"
        define shown2 where "shown2 = t1 @ [board2]"
        from le safe r False 2(1,5)
        have "tryNumsAnim board2 s1 shown2 row col (Suc num) = (False, b', s', t')"
          by (simp add: tryNumsAnim.psimps Let_def board1_def shown1_def board2_def shown2_def)
        from 2(3)[OF le safe board1_def shown1_def r[symmetric] refl refl False board2_def
            shown2_def this] b1
        show ?thesis by (simp add: board2_def board1_def)
      qed
    qed
  qed
qed

termination solveAnim
proof (relation "inv_image (less_than <*lex*> less_than <*lex*> less_than)
    (case_sum (\<lambda>(b, s, t). (card (zeroSet b), 1::nat, 0::nat))
       (\<lambda>(b, s, t, row, col, num).
          (card (zeroSet (setCell b row col 0)),
           if cellAt b row col \<noteq> None \<and> 1 \<le> num then 0 else 2,
           Suc (length b) - num)))", goal_cases)
  case 1
  show ?case by (intro wf_inv_image wf_lex_prod wf_less_than)
next
  case (2 board steps shown p row col)
  then have "cellAt board row col = Some 0"
    by (auto dest: firstEmpty_Some)
  then show ?case by (simp add: setCell_same)
next
  case (3 board steps shown row col num board1 shown1)
  show ?case
  proof (cases "cellAt board row col \<noteq> None \<and> 1 \<le> num")
    case True
    have "card (zeroSet board - {(row, col)}) < card (insert (row, col) (zeroSet board))"
    proof (cases "(row, col) \<in> zeroSet board")
      case True
      then have "card (zeroSet board - {(row, col)}) < card (zeroSet board)"
        by (intro card_Diff1_less) simp_all
      with True show ?thesis by (simp add: insert_absorb)
    next
      case False
      then show ?thesis by simp
    qed
    with True 3 show ?thesis by (auto simp: zeroSet_setCell)
  next
    case False
    with 3 show ?thesis by (auto simp: zeroSet_setCell setCell_out)
  qed
next
  case (4 board steps shown row col num board1 shown1 ok y b1 z s1 t1 board2 shown2)
  then have "solveAnim board1 steps shown1 = (False, b1, s1, t1)"
    by simp
  from solveAnim_fail_partial(1)[OF \<open>solveAnim_tryNumsAnim_dom (Inl (board1, steps, shown1))\<close> this]
  have "b1 = board1" .
  with 4 show ?case by (auto simp: cellAt_setCell)
next
  case (5 board steps shown row col num)
  then show ?case by auto
qed

declare solveAnim.simps [simp del] tryNumsAnim.simps [simp del]

section \<open>Validator\<close>

text \<open>
  \<^verbatim>\<open>isValidSudoku\<close>: the two nested loops visit the cells in row-major order; \<open>validScan\<close> is
  the loop over the cells still to visit. A filled cell is cleared, checked with \<open>isSafe\<close>
  against its own value and restored, on the branch that returns \<open>false\<close> as on the other; the
  board is passed in and returned, since the function writes to it. On a square board every
  cell read is a number; where the array has no such cell the source would go on with
  \<^verbatim>\<open>undefined\<close>, which is outside this model, and the scan answers \<open>None\<close>.
\<close>

fun validScan :: "board \<Rightarrow> (nat \<times> nat) list \<Rightarrow> (bool \<times> board) option" where
  "validScan board [] = Some (True, board)"
| "validScan board ((row, col) # rest) =
     (case cellAt board row col of
        None \<Rightarrow> None
      | Some num \<Rightarrow>
          if num \<noteq> 0 then
            (let board1 = setCell board row col 0 in
             if \<not> isSafe board1 row col num then Some (False, setCell board1 row col num)
             else validScan (setCell board1 row col num) rest)
          else validScan board rest)"

definition isValidSudoku :: "board \<Rightarrow> (bool \<times> board) option" where
  "isValidSudoku board =
     validScan board (List.product [0..<length board] [0..<length board])"

section \<open>Double-precision arithmetic\<close>

text \<open>
  The numbers of the source are IEEE 754 doubles, and an arithmetic operation on them yields
  the double nearest to the exact result, a tie going to the even significand. A double is a
  rational number here, and \<open>roundDouble x\<close> is the double nearest to \<open>x\<close>: with \<open>e\<close> the exponent
  of \<open>x\<close> (\<open>2 ^ e \<le> \<bar>x\<bar> < 2 ^ (e + 1)\<close>, and \<open>- 1022\<close> for the numbers below the normal range), the
  doubles around \<open>x\<close> are the multiples of \<open>2 ^ (e - 52)\<close>. Numbers from \<open>2 ^ 1024\<close> on
  (\<^verbatim>\<open>Infinity\<close> in the source) do not occur: the generator's numbers stay below \<open>size * size\<close>.

  \<open>roundEven q\<close> is the integer nearest to \<open>q\<close>, the even one of the two when \<open>q\<close> lies half way.
\<close>

definition roundEven :: "rat \<Rightarrow> int" where
  "roundEven q =
     (let f = \<lfloor>q\<rfloor>; d = q - of_int f in
      if d < 1 / 2 then f else if 1 / 2 < d then f + 1 else if even f then f else f + 1)"

text \<open>
  The exponent of a positive number: \<open>expUp\<close> halves a number from \<open>1\<close> on until it is below
  \<open>2\<close>, \<open>expDown\<close> doubles a number below \<open>1\<close> until it reaches \<open>1\<close> or the least exponent \<open>- 1022\<close>.
\<close>

function expUp :: "int \<Rightarrow> rat \<Rightarrow> int" where
  "expUp e x = (if x < 2 \<or> 1023 \<le> e then e else expUp (e + 1) (x / 2))"
  by pat_completeness auto
termination expUp
  by (relation "measure (\<lambda>(e, x). nat (1023 - e))") simp_all

function expDown :: "int \<Rightarrow> rat \<Rightarrow> int" where
  "expDown e x = (if 1 \<le> x \<or> e \<le> - 1022 then e else expDown (e - 1) (x * 2))"
  by pat_completeness auto
termination expDown
  by (relation "measure (\<lambda>(e, x). nat (e + 1022))") simp_all

declare expUp.simps [simp del] expDown.simps [simp del]

definition exponent :: "rat \<Rightarrow> int" where
  "exponent x = (if 1 \<le> x then expUp 0 x else expDown 0 x)"

definition pow2 :: "int \<Rightarrow> rat" where
  "pow2 e = (if 0 \<le> e then of_int (2 ^ nat e) else 1 / of_int (2 ^ nat (- e)))"

definition roundDouble :: "rat \<Rightarrow> rat" where
  "roundDouble x =
     (if x = 0 then 0
      else let ulp = pow2 (exponent \<bar>x\<bar> - 52) in of_int (roundEven (x / ulp)) * ulp)"

section \<open>Puzzle generator\<close>

text \<open>
  The generator draws from \<^verbatim>\<open>Math.random()\<close>. Its draws are an argument: the list \<open>rs\<close> of the
  values the random source yields, in the order the code asks for them; every function takes
  the values it needs from the front and returns the rest. The removal loop can go on for
  ever, so a function that runs out of values before it is done answers \<open>None\<close>: the call has
  not returned within these draws.

  \<^verbatim>\<open>Math.floor(Math.random() * n)\<close> is \<open>randomIndex u n\<close> for the value \<open>u\<close> drawn: the product
  is a double product.
\<close>

definition randomIndex :: "rat \<Rightarrow> nat \<Rightarrow> nat" where
  "randomIndex u n = nat \<lfloor>roundDouble (u * of_nat n)\<rfloor>"

text \<open>
  The shuffle loop of \<^verbatim>\<open>fillBox\<close>, \<^verbatim>\<open>for (i = numbers.length - 1; i > 0; i--)\<close>, from index \<open>i\<close>
  down: it draws \<open>j\<close> in \<open>[0, i]\<close> and swaps the entries \<open>i\<close> and \<open>j\<close>.
\<close>

fun shuffle :: "nat \<Rightarrow> int list \<Rightarrow> rat list \<Rightarrow> (int list \<times> rat list) option" where
  "shuffle 0 numbers rs = Some (numbers, rs)"
| "shuffle (Suc i') numbers [] = None"
| "shuffle (Suc i') numbers (u # rs) =
     (let i = Suc i'; j = randomIndex u (i + 1) in
      shuffle i' (numbers[i := numbers ! j, j := numbers ! i]) rs)"

text \<open>
  The write loops of \<^verbatim>\<open>fillBox\<close> over the cells \<open>(i, j)\<close> of the box still to write, with the
  index \<^verbatim>\<open>numIndex\<close> of the next number.
\<close>

fun writeBox :: "board \<Rightarrow> nat \<Rightarrow> nat \<Rightarrow> int list \<Rightarrow> nat \<Rightarrow> (nat \<times> nat) list \<Rightarrow> board" where
  "writeBox grid row col numbers numIndex [] = grid"
| "writeBox grid row col numbers numIndex ((i, j) # rest) =
     writeBox (setCell grid (row + i) (col + j) (numbers ! numIndex)) row col numbers
       (Suc numIndex) rest"

definition fillBox :: "board \<Rightarrow> nat \<Rightarrow> nat \<Rightarrow> nat \<Rightarrow> rat list \<Rightarrow> (board \<times> rat list) option" where
  "fillBox grid row col sz rs =
     (let boxSize = boxSizeOf sz; numbers = map int [1..<Suc sz] in
      case shuffle (length numbers - 1) numbers rs of
        None \<Rightarrow> None
      | Some (numbers', rs') \<Rightarrow>
          Some (writeBox grid row col numbers' 0 (List.product [0..<boxSize] [0..<boxSize]), rs'))"

text \<open>
  The loop \<^verbatim>\<open>for (i = 0; i < size; i += boxSize)\<close> of \<^verbatim>\<open>generatePuzzle\<close>, from \<open>i\<close> on. It
  terminates because the box side of a positive size is positive.
\<close>

lemma boxSizeOf_pos: "0 < sz \<Longrightarrow> 0 < boxSizeOf sz"
proof -
  assume "0 < sz"
  then have "1 \<in> set (filter (\<lambda>k. k * k \<le> sz) [1..<Suc sz])" by simp
  then show ?thesis unfolding boxSizeOf_def by (metis length_pos_if_in_set)
qed

function seedDiagonal :: "board \<Rightarrow> nat \<Rightarrow> nat \<Rightarrow> rat list \<Rightarrow> (board \<times> rat list) option" where
  "seedDiagonal grid i sz rs =
     (if i < sz then
        (case fillBox grid i i sz rs of
           None \<Rightarrow> None
         | Some (grid', rs') \<Rightarrow> seedDiagonal grid' (i + boxSizeOf sz) sz rs')
      else Some (grid, rs))"
  by pat_completeness auto
termination seedDiagonal
proof (relation "measure (\<lambda>(grid, i, sz, rs). sz - i)", goal_cases)
  case 1
  show ?case by simp
next
  case (2 grid i sz rs filled grid' rs')
  then have "0 < boxSizeOf sz" by (intro boxSizeOf_pos) simp
  with 2 show ?case by simp
qed

declare seedDiagonal.simps [simp del]

text \<open>
  The \<^verbatim>\<open>do ... while (grid[row][col] === 0)\<close> loop that draws a filled cell, and the loop that
  clears \<open>n\<close> such cells.
\<close>

fun pickCell :: "board \<Rightarrow> nat \<Rightarrow> rat list \<Rightarrow> (nat \<times> nat \<times> rat list) option" where
  "pickCell grid sz (u1 # u2 # rs) =
     (let row = randomIndex u1 sz; col = randomIndex u2 sz in
      if cellAt grid row col = Some 0 then pickCell grid sz rs else Some (row, col, rs))"
| "pickCell grid sz rs = None"

fun removeCells :: "nat \<Rightarrow> board \<Rightarrow> nat \<Rightarrow> rat list \<Rightarrow> board option" where
  "removeCells 0 grid sz rs = Some grid"
| "removeCells (Suc n) grid sz rs =
     (case pickCell grid sz rs of
        None \<Rightarrow> None
      | Some (row, col, rs') \<Rightarrow> removeCells n (setCell grid row col 0) sz rs')"

text \<open>
  The constant \<^verbatim>\<open>cellsToKeep\<close>, \<^verbatim>\<open>Math.floor(size * size * (0.3 + Math.random() * 0.2))\<close>, for
  the value \<open>u\<close> drawn. The literals \<^verbatim>\<open>0.3\<close> and \<^verbatim>\<open>0.2\<close> are the doubles nearest to \<open>3 / 10\<close> and
  \<open>2 / 10\<close>; the product with \<open>u\<close>, the sum and the product with \<^verbatim>\<open>size * size\<close> are each rounded
  to a double. \<^verbatim>\<open>size * size\<close> is an integer far below \<open>2 ^ 53\<close>, which a double holds exactly.
\<close>

definition cellsToKeep :: "nat \<Rightarrow> rat \<Rightarrow> int" where
  "cellsToKeep sz u =
     \<lfloor>roundDouble (of_nat (sz * sz) *
        roundDouble (roundDouble (3 / 10) + roundDouble (u * roundDouble (2 / 10))))\<rfloor>"

section \<open>Results\<close>

text \<open>\<^verbatim>\<open>solveSudoku\<close>: the counter starts at \<open>0\<close>, and the result holds the board as the search left it.\<close>

record SolveResult =
  solved :: bool
  grid :: board
  steps :: nat

definition solveSudoku :: "board \<Rightarrow> SolveResult" where
  "solveSudoku board =
     (case solve board 0 of
        (ok, board', steps') \<Rightarrow> \<lparr>solved = ok, grid = board', steps = steps'\<rparr>)"

text \<open>
  \<^verbatim>\<open>solveSudokuAnimated\<close>: the result the promise resolves to, and the boards \<^verbatim>\<open>onUpdate\<close> was
  called with, in order.
\<close>

definition solveSudokuAnimated :: "board \<Rightarrow> SolveResult \<times> board list" where
  "solveSudokuAnimated board =
     (case solveAnim board 0 [] of
        (ok, board', steps', shown) \<Rightarrow> (\<lparr>solved = ok, grid = board', steps = steps'\<rparr>, shown))"

text \<open>
  \<^verbatim>\<open>generatePuzzle\<close>: an all-zero grid, the diagonal boxes, the solver (whose answer the code
  does not look at: only the grid it leaves is used), the draw for \<^verbatim>\<open>cellsToKeep\<close>, and
  the removal of \<^verbatim>\<open>size * size - cellsToKeep\<close> cells (a difference of two integers, exact in
  double precision).
\<close>

definition generatePuzzle :: "nat \<Rightarrow> rat list \<Rightarrow> board option" where
  "generatePuzzle sz rs =
     (case seedDiagonal (replicate sz (replicate sz 0)) 0 sz rs of
        None \<Rightarrow> None
      | Some (seeded, rs1) \<Rightarrow>
          let solvedGrid = grid (solveSudoku seeded) in
          (case rs1 of
             [] \<Rightarrow> None
           | u # rs2 \<Rightarrow>
               let cellsToRemove = int (sz * sz) - cellsToKeep sz u
               in removeCells (nat cellsToRemove) solvedGrid sz rs2))"

section \<open>Specification predicates\<close>

text \<open>
  The constraint of the specification, in its words: the value appears nowhere else in the
  row, nowhere else in the column, and nowhere else in the box of side \<open>\<surd>N\<close> whose top-left
  corner is \<open>(row - row mod \<surd>N, col - col mod \<surd>N)\<close>.
\<close>

definition specSafe :: "board \<Rightarrow> nat \<Rightarrow> nat \<Rightarrow> int \<Rightarrow> bool" where
  "specSafe board row col v =
     (let n = length board; k = boxSizeOf n;
          top = row - row mod k; left = col - col mod k in
      (\<forall>c \<in> {0..<n}. c \<noteq> col \<longrightarrow> board ! row ! c \<noteq> v) \<and>
      (\<forall>r \<in> {0..<n}. r \<noteq> row \<longrightarrow> board ! r ! col \<noteq> v) \<and>
      (\<forall>r \<in> {top..<top + k}. \<forall>c \<in> {left..<left + k}.
         (r, c) \<noteq> (row, col) \<longrightarrow> board ! r ! c \<noteq> v))"

text \<open>Every filled cell of the first board has the same value in the second.\<close>

definition keeps :: "board \<Rightarrow> board \<Rightarrow> bool" where
  "keeps b b' = (\<forall>r c v. cellAt b r c = Some v \<and> v \<noteq> 0 \<longrightarrow> cellAt b' r c = Some v)"

text \<open>
  Two cells share a unit when they are in the same row, the same column or the same box of
  side \<open>k\<close>. A board has a conflict when two different cells of one unit hold the same non-zero
  value.
\<close>

definition sameUnit :: "nat \<Rightarrow> nat \<times> nat \<Rightarrow> nat \<times> nat \<Rightarrow> bool" where
  "sameUnit k p q =
     (fst p = fst q \<or> snd p = snd q \<or>
      (fst p div k = fst q div k \<and> snd p div k = snd q div k))"

definition hasConflict :: "board \<Rightarrow> bool" where
  "hasConflict board =
     (let n = length board; k = boxSizeOf n in
      \<exists>r1 \<in> {0..<n}. \<exists>c1 \<in> {0..<n}. \<exists>r2 \<in> {0..<n}. \<exists>c2 \<in> {0..<n}.
        (r1, c1) \<noteq> (r2, c2) \<and> board ! r1 ! c1 \<noteq> 0 \<and> board ! r1 ! c1 = board ! r2 ! c2 \<and>
        sameUnit k (r1, c1) (r2, c2))"

text \<open>
  What the validator checks at one cell: an empty cell passes, and a filled cell passes when
  its value is safe at its place once the cell is cleared.
\<close>

definition cellOk :: "board \<Rightarrow> nat \<Rightarrow> nat \<Rightarrow> bool" where
  "cellOk b r c =
     (case cellAt b r c of
        None \<Rightarrow> True
      | Some v \<Rightarrow> v = 0 \<or> isSafe (setCell b r c 0) r c v)"

text \<open>The result of the animated search without the boards shown.\<close>

definition withoutShown :: "bool \<times> board \<times> nat \<times> board list \<Rightarrow> bool \<times> board \<times> nat" where
  "withoutShown r = (case r of (ok, b, s, t) \<Rightarrow> (ok, b, s))"

text \<open>
  The random source: the successive values of \<^verbatim>\<open>Math.random()\<close>, each a double in \<open>[0, 1)\<close>. The
  largest double below \<open>1\<close> is \<open>1 - 2 ^ - 53\<close>, so every value lies between \<open>0\<close> and that number.
\<close>

definition randomsOk :: "rat list \<Rightarrow> bool" where
  "randomsOk rs = list_all (\<lambda>u. 0 \<le> u \<and> u \<le> 1 - 1 / 2 ^ 53) rs"

text \<open>The number of non-zero cells, \<^verbatim>\<open>board.flat().filter(cell => cell !== 0).length\<close>.\<close>

definition filledCells :: "board \<Rightarrow> nat" where
  "filledCells board = length (filter (\<lambda>cell. cell \<noteq> 0) (concat board))"

text \<open>
  The state of the seeding loop after \<open>d\<close> diagonal boxes of side \<open>k\<close>: a board of side \<open>k * k\<close>
  without conflict whose filled cells all lie in the first \<open>d\<close> diagonal boxes.
\<close>

definition diagOnly :: "nat \<Rightarrow> nat \<Rightarrow> board \<Rightarrow> bool" where
  "diagOnly k d g =
     (\<forall>r<length g. \<forall>c<length g. g ! r ! c \<noteq> 0 \<longrightarrow> r div k = c div k \<and> r div k < d)"

definition seedInv :: "nat \<Rightarrow> nat \<Rightarrow> board \<Rightarrow> bool" where
  "seedInv k d g =
     (isBoard g \<and> length g = k * k \<and> \<not> hasConflict g \<and> diagOnly k d g \<and>
      filledCells g \<le> d * (k * k))"

text \<open>
  A completion of a board: a board of the data model of the same side without conflict, with
  every cell filled with a value from \<open>1\<close> to the side, that holds every filled cell of the
  board.
\<close>

definition completes :: "board \<Rightarrow> board \<Rightarrow> bool" where
  "completes f b =
     (isBoard f \<and> length f = length b \<and> \<not> hasConflict f \<and> keeps b f \<and>
      (\<forall>r<length f. \<forall>c<length f. 1 \<le> f ! r ! c \<and> f ! r ! c \<le> int (length f)))"

section \<open>Board shape\<close>

lemma boxSizeOf_square [simp]: "boxSizeOf (k * k) = k"
proof -
  have mem: "j \<in> set (filter (\<lambda>j. j * j \<le> k * k) [1..<Suc (k * k)]) \<longleftrightarrow>
      1 \<le> j \<and> j \<le> k * k \<and> j * j \<le> k * k" for j
    by (simp only: set_filter set_upt mem_Collect_eq atLeastLessThan_iff less_Suc_eq_le conj_assoc)
  have "set (filter (\<lambda>j. j * j \<le> k * k) [1..<Suc (k * k)]) = {1..k}"
  proof (intro set_eqI iffI)
    fix j assume "j \<in> set (filter (\<lambda>j. j * j \<le> k * k) [1..<Suc (k * k)])"
    then have "1 \<le> j" and "j * j \<le> k * k" unfolding mem by simp_all
    then have "j \<le> k" using power2_nat_le_eq_le[of j k] by (simp add: power2_eq_square)
    with \<open>1 \<le> j\<close> show "j \<in> {1..k}" by simp
  next
    fix j assume "j \<in> {1..k}"
    then have j: "1 \<le> j" "j \<le> k" by auto
    then have "j * j \<le> k * k" by (simp add: mult_le_mono)
    moreover have "j \<le> k * k"
      using le_square[of k] j(2) by (rule_tac order_trans[of j k]) simp_all
    ultimately show "j \<in> set (filter (\<lambda>j. j * j \<le> k * k) [1..<Suc (k * k)])"
      unfolding mem using j by simp
  qed
  moreover have "distinct (filter (\<lambda>j. j * j \<le> k * k) [1..<Suc (k * k)])"
    by simp
  ultimately have "length (filter (\<lambda>j. j * j \<le> k * k) [1..<Suc (k * k)]) = card {1..k}"
    by (metis distinct_card)
  then show ?thesis by (simp add: boxSizeOf_def)
qed

lemma isBoard_square: "isBoard b \<Longrightarrow> boxSizeOf (length b) * boxSizeOf (length b) = length b"
  by (simp add: isBoard_def)

lemma isBoard_row: "isBoard b \<Longrightarrow> r < length b \<Longrightarrow> length (b ! r) = length b"
  by (simp add: isBoard_def list_all_length)

lemma isBoard_cellAt:
  "isBoard b \<Longrightarrow> r < length b \<Longrightarrow> c < length b \<Longrightarrow> cellAt b r c = Some (b ! r ! c)"
  by (simp add: cellAt_def isBoard_row)

lemma isBoard_setCell [simp]: "isBoard (setCell b r c v) = isBoard b"
  by (cases "r < length b")
    (auto simp: isBoard_def setCell_def list_all_length nth_list_update list_update_beyond)

lemma list_ex_upt: "list_ex P [0..<n] \<longleftrightarrow> (\<exists>x<n. P x)"
  by (auto simp: list_ex_iff)

text \<open>The three scans of \<open>isSafe\<close>, as statements about cells.\<close>

lemma isSafe_iff:
  "isSafe b row col v \<longleftrightarrow>
     (\<forall>x<length b. cellAt b row x \<noteq> Some v) \<and>
     (\<forall>x<length b. cellAt b x col \<noteq> Some v) \<and>
     (\<forall>i<boxSizeOf (length b). \<forall>j<boxSizeOf (length b).
        cellAt b (i + (row - row mod boxSizeOf (length b)))
                 (j + (col - col mod boxSizeOf (length b))) \<noteq> Some v)"
  by (auto simp: isSafe_def Let_def list_ex_upt)

text \<open>The box of a cell, for a box side \<open>k\<close>.\<close>

lemma box_start: "0 < k \<Longrightarrow> (r::nat) - r mod k = k * (r div k)"
  by (metis minus_mod_eq_mult_div)

lemma in_box_iff:
  assumes "0 < (k::nat)"
  shows "(\<exists>i<k. r = i + (row - row mod k)) \<longleftrightarrow> r div k = row div k"
proof
  assume "\<exists>i<k. r = i + (row - row mod k)"
  then obtain i where "i < k" "r = i + k * (row div k)"
    using assms by (auto simp: box_start)
  then show "r div k = row div k" using assms by simp
next
  assume eq: "r div k = row div k"
  have "r = r mod k + k * (r div k)" by simp
  with eq have "r = r mod k + (row - row mod k)" using assms by (simp add: box_start)
  moreover have "r mod k < k" using assms by simp
  ultimately show "\<exists>i<k. r = i + (row - row mod k)" by blast
qed

section \<open>Properties of the constraint checker\<close>

lemma box_inside:
  assumes "(r::nat) < k * k"
  shows "r - r mod k + k \<le> k * k" and "r - r mod k \<le> r" and "r < r - r mod k + k"
proof -
  from assms have k: "0 < k" by (cases k) auto
  have "r div k < k" using assms k by (simp add: less_mult_imp_div_less)
  then have "Suc (r div k) \<le> k" by simp
  then have "k * Suc (r div k) \<le> k * k" by (rule mult_le_mono2)
  then show "r - r mod k + k \<le> k * k" using k by (simp add: box_start)
  show "r - r mod k \<le> r" by simp
  have "r mod k < k" using k by simp
  moreover have "r - r mod k + r mod k = r" by simp
  ultimately show "r < r - r mod k + k" by linarith
qed

text \<open>
  C2. On a board of the data model (side \<open>N\<close> a perfect square), for a cell \<open>(row, col)\<close> inside
  the board that is empty and a value \<open>v\<close> in \<open>[1, N]\<close>, \<open>isSafe\<close> holds exactly when \<open>v\<close> appears
  nowhere else in the row, nowhere else in the column and nowhere else in the box whose
  top-left corner is \<open>(row - row mod \<surd>N, col - col mod \<surd>N)\<close>, which is \<open>specSafe\<close>.
  (\<open>isSafe\<close> is a function of the board to a boolean: the source function assigns nothing.)
\<close>

theorem isSafe_meets_spec:
  assumes "isBoard board" and "row < length board" and "col < length board"
    and "1 \<le> v" and "v \<le> int (length board)" and "board ! row ! col = 0"
  shows "isSafe board row col v \<longleftrightarrow> specSafe board row col v"
proof -
  define n where "n = length board"
  define k where "k = boxSizeOf n"
  define top where "top = row - row mod k"
  define left where "left = col - col mod k"
  have sq: "k * k = n" using assms(1) by (simp add: k_def n_def isBoard_square)
  have row: "row < k * k" and col: "col < k * k" using assms(2,3) sq n_def by simp_all
  have top: "top + k \<le> n" "top \<le> row" "row < top + k"
    using box_inside[OF row] sq by (simp_all add: top_def)
  have left: "left + k \<le> n" "left \<le> col" "col < left + k"
    using box_inside[OF col] sq by (simp_all add: left_def)
  have cell: "cellAt board r c = Some (board ! r ! c)" if "r < n" "c < n" for r c
    using that assms(1) by (simp add: isBoard_cellAt n_def)
  have target: "board ! row ! col \<noteq> v" using assms(4,6) by simp
  have rown: "row < n" and coln: "col < n" using assms(2,3) by (simp_all add: n_def)
  have a: "(\<forall>x<n. cellAt board row x \<noteq> Some v) \<longleftrightarrow>
           (\<forall>c \<in> {0..<n}. c \<noteq> col \<longrightarrow> board ! row ! c \<noteq> v)"
  proof -
    have "(\<forall>x<n. cellAt board row x \<noteq> Some v) \<longleftrightarrow> (\<forall>x<n. board ! row ! x \<noteq> v)"
      using cell[OF rown] by simp
    also have "\<dots> \<longleftrightarrow> (\<forall>c \<in> {0..<n}. c \<noteq> col \<longrightarrow> board ! row ! c \<noteq> v)"
      using target by auto
    finally show ?thesis .
  qed
  have b: "(\<forall>x<n. cellAt board x col \<noteq> Some v) \<longleftrightarrow>
           (\<forall>r \<in> {0..<n}. r \<noteq> row \<longrightarrow> board ! r ! col \<noteq> v)"
  proof -
    have "(\<forall>x<n. cellAt board x col \<noteq> Some v) \<longleftrightarrow> (\<forall>x<n. board ! x ! col \<noteq> v)"
      using cell[OF _ coln] by simp
    also have "\<dots> \<longleftrightarrow> (\<forall>r \<in> {0..<n}. r \<noteq> row \<longrightarrow> board ! r ! col \<noteq> v)"
      using target by auto
    finally show ?thesis .
  qed
  have c: "(\<forall>i<k. \<forall>j<k. cellAt board (i + top) (j + left) \<noteq> Some v) \<longleftrightarrow>
           (\<forall>r \<in> {top..<top + k}. \<forall>c \<in> {left..<left + k}.
              (r, c) \<noteq> (row, col) \<longrightarrow> board ! r ! c \<noteq> v)" (is "?L \<longleftrightarrow> ?R")
  proof
    assume L: ?L
    show ?R
    proof (intro ballI impI)
      fix r c assume rc: "r \<in> {top..<top + k}" "c \<in> {left..<left + k}"
      then have "r - top < k" "c - left < k" and eq: "(r - top) + top = r" "(c - left) + left = c"
        by auto
      with L have "cellAt board ((r - top) + top) ((c - left) + left) \<noteq> Some v" by blast
      then have "cellAt board r c \<noteq> Some v" unfolding eq .
      moreover have "r < n" "c < n" using rc top left by auto
      ultimately show "board ! r ! c \<noteq> v" using cell by simp
    qed
  next
    assume R: ?R
    show ?L
    proof (intro allI impI)
      fix i j assume ij: "i < k" "j < k"
      then have in_box: "i + top \<in> {top..<top + k}" "j + left \<in> {left..<left + k}" by auto
      have inb: "i + top < n" "j + left < n" using ij top left by auto
      show "cellAt board (i + top) (j + left) \<noteq> Some v"
      proof (cases "(i + top, j + left) = (row, col)")
        case True
        then show ?thesis using cell inb target by auto
      next
        case False
        with R in_box have "board ! (i + top) ! (j + left) \<noteq> v" by blast
        then show ?thesis using cell inb by simp
      qed
    qed
  qed
  show ?thesis
    unfolding isSafe_iff specSafe_def Let_def
    using a b c by (simp add: n_def k_def top_def left_def)
qed

theorem isSafe_meets_spec_witness:
  "isSafe [[1, 2, 3, 4], [3, 4, 1, 2], [2, 1, 4, 3], [4, 3, 2, 0]] 3 3 1 \<and>
   specSafe [[1, 2, 3, 4], [3, 4, 1, 2], [2, 1, 4, 3], [4, 3, 2, 0]] 3 3 1 \<and>
   \<not> isSafe [[1, 2, 3, 4], [3, 4, 1, 2], [2, 1, 4, 3], [4, 3, 2, 0]] 3 3 4 \<and>
   \<not> specSafe [[1, 2, 3, 4], [3, 4, 1, 2], [2, 1, 4, 3], [4, 3, 2, 0]] 3 3 4"
proof -
  let ?b = "[[1, 2, 3, 4], [3, 4, 1, 2], [2, 1, 4, 3], [4, 3, 2, 0]] :: board"
  have wf: "isBoard ?b" by code_simp
  have s1: "isSafe ?b 3 3 1" by code_simp
  have s4: "\<not> isSafe ?b 3 3 4" by code_simp
  from isSafe_meets_spec[of ?b 3 3 1] wf s1 have "specSafe ?b 3 3 1" by simp
  moreover from isSafe_meets_spec[of ?b 3 3 4] wf s4 have "\<not> specSafe ?b 3 3 4" by simp
  ultimately show ?thesis using s1 s4 by simp
qed

text \<open>
  C10. The scans of \<open>isSafe\<close> do not skip the target cell: asked about the value \<open>v \<noteq> 0\<close> that
  the cell \<open>(row, col)\<close> of the board already holds, \<open>isSafe\<close> answers \<open>False\<close> (the row scan
  meets the cell itself). A caller that checks a placed value has to clear the cell first.
\<close>

theorem isSafe_placed_value:
  assumes "row < length board" and "col < length board"
    and "cellAt board row col = Some v" and "v \<noteq> 0"
  shows "isSafe board row col v = False"
proof -
  from assms(2,3) have "list_ex (\<lambda>x. cellAt board row x = Some v) [0..<length board]"
    unfolding list_ex_upt by blast
  then show ?thesis
    by (simp add: isSafe_def Let_def)
qed

theorem isSafe_placed_value_witness:
  "isSafe [[1, 2, 3, 4], [3, 4, 1, 2], [2, 1, 4, 3], [4, 3, 2, 0]] 1 2 1 = False"
  using isSafe_placed_value [of 1 "[[1, 2, 3, 4], [3, 4, 1, 2], [2, 1, 4, 3], [4, 3, 2, 0]]" 2 1]
  by (simp add: cellAt_def)

section \<open>Properties of the solver\<close>

lemma keeps_refl [simp]: "keeps b b"
  by (simp add: keeps_def)

lemma keeps_trans: "keeps a b \<Longrightarrow> keeps b c \<Longrightarrow> keeps a c"
  by (simp add: keeps_def)

lemma keeps_setCell: "cellAt b r c = Some 0 \<Longrightarrow> keeps b (setCell b r c v)"
  by (auto simp: keeps_def cellAt_setCell)

lemma solve_frame:
  "solve b s = (ok, b', s') \<Longrightarrow>
     (\<not> ok \<longrightarrow> b' = b) \<and> keeps b b' \<and> (ok \<longrightarrow> firstEmpty b' = None)"
  "tryNums b s row col num = (ok, b', s') \<Longrightarrow> cellAt b row col = Some 0 \<Longrightarrow>
     (\<not> ok \<longrightarrow> b' = b) \<and> keeps b b' \<and> (ok \<longrightarrow> firstEmpty b' = None)"
proof (induction b s and b s row col num arbitrary: ok b' s' and ok b' s'
    rule: solve_tryNums.induct)
  case (1 board steps)
  show ?case
  proof (cases "firstEmpty board")
    case None
    with 1(2) show ?thesis by (auto simp: solve.simps)
  next
    case (Some p)
    obtain row col where p: "p = (row, col)" by (cases p)
    from 1(2) Some p have "tryNums board (Suc steps) row col 1 = (ok, b', s')"
      by (simp add: solve.simps)
    from 1(1)[OF Some p[symmetric] this] firstEmpty_Some[OF Some[unfolded p]]
    show ?thesis by blast
  qed
next
  case (2 board steps row col num)
  note zero = \<open>cellAt board row col = Some 0\<close>
  note res = \<open>tryNums board steps row col num = (ok, b', s')\<close>
  show ?case
  proof (cases "num \<le> length board")
    case False
    with res show ?thesis by (auto simp: tryNums.simps)
  next
    case le: True
    show ?thesis
    proof (cases "isSafe board row col (int num)")
      case False
      with le res have "tryNums board steps row col (Suc num) = (ok, b', s')"
        by (simp add: tryNums.simps[of board])
      from 2(3)[OF le False this zero] show ?thesis .
    next
      case safe: True
      obtain ok1 b1 s1 where r: "solve (setCell board row col (int num)) steps = (ok1, b1, s1)"
        by (cases "solve (setCell board row col (int num)) steps") auto
      note ih = 2(1)[OF le safe r]
      have k1: "keeps board b1"
        using keeps_trans[OF keeps_setCell[OF zero]] ih by blast
      show ?thesis
      proof (cases ok1)
        case True
        with le safe r res have "ok" and "b' = b1" by (simp_all add: tryNums.simps[of board])
        with True ih k1 show ?thesis by simp
      next
        case False
        with ih have b1: "b1 = setCell board row col (int num)" by simp
        then have restored: "setCell b1 row col 0 = board"
          using zero by (simp add: setCell_same)
        from le safe r False res
        have "tryNums (setCell b1 row col 0) s1 row col (Suc num) = (ok, b', s')"
          by (simp add: tryNums.simps[of board])
        from 2(2)[OF le safe r[symmetric] refl False this] restored zero
        show ?thesis by simp
      qed
    qed
  qed
qed

lemma solve_length:
  "solve b s = (ok, b', s') \<Longrightarrow> length b' = length b"
  "tryNums b s row col num = (ok, b', s') \<Longrightarrow> length b' = length b"
proof (induction b s and b s row col num arbitrary: ok b' s' and ok b' s'
    rule: solve_tryNums.induct)
  case (1 board stepCount)
  show ?case
  proof (cases "firstEmpty board")
    case None
    with 1(2) show ?thesis by (auto simp: solve.simps)
  next
    case (Some p)
    obtain row col where p: "p = (row, col)" by (cases p)
    from 1(2) Some p have "tryNums board (Suc stepCount) row col 1 = (ok, b', s')"
      by (simp add: solve.simps)
    from 1(1)[OF Some p[symmetric] this] show ?thesis .
  qed
next
  case (2 board stepCount row col num)
  note res = \<open>tryNums board stepCount row col num = (ok, b', s')\<close>
  show ?case
  proof (cases "num \<le> length board")
    case False
    with res show ?thesis by (auto simp: tryNums.simps)
  next
    case le: True
    show ?thesis
    proof (cases "isSafe board row col (int num)")
      case False
      with le res have "tryNums board stepCount row col (Suc num) = (ok, b', s')"
        by (simp add: tryNums.simps[of board])
      from 2(3)[OF le False this] show ?thesis .
    next
      case safe: True
      obtain ok1 b1 s1 where r: "solve (setCell board row col (int num)) stepCount = (ok1, b1, s1)"
        by (cases "solve (setCell board row col (int num)) stepCount") auto
      from 2(1)[OF le safe r] have l1: "length b1 = length board" by simp
      show ?thesis
      proof (cases ok1)
        case True
        with le safe r res have "b' = b1" by (simp add: tryNums.simps[of board])
        with l1 show ?thesis by simp
      next
        case False
        from le safe r False res
        have "tryNums (setCell b1 row col 0) s1 row col (Suc num) = (ok, b', s')"
          by (simp add: tryNums.simps[of board])
        from 2(2)[OF le safe r[symmetric] refl False this] l1 show ?thesis by simp
      qed
    qed
  qed
qed

section \<open>Properties of the validator\<close>

lemma validScan_eq:
  "(\<forall>(r, c) \<in> set ps. cellAt b r c \<noteq> None) \<Longrightarrow>
     validScan b ps = Some (list_all (\<lambda>(r, c). cellOk b r c) ps, b)"
proof (induction ps)
  case Nil
  show ?case by simp
next
  case (Cons p ps)
  obtain r c where p: "p = (r, c)" by (cases p)
  from Cons.prems p obtain v where v: "cellAt b r c = Some v" by auto
  have restore: "setCell b r c v = b"
    using v by (simp add: setCell_same)
  from Cons.prems have "\<forall>(r, c) \<in> set ps. cellAt b r c \<noteq> None" by simp
  from Cons.IH[OF this] show ?case
    by (simp add: p v restore cellOk_def Let_def)
qed

lemma validScan_append:
  "validScan b (ps @ qs) =
     (case validScan b ps of Some (True, b') \<Rightarrow> validScan b' qs | r \<Rightarrow> r)"
proof (induction ps arbitrary: b)
  case Nil
  show ?case by simp
next
  case (Cons p ps)
  obtain r c where p: "p = (r, c)" by (cases p)
  show ?case
    by (simp add: p Cons.IH Let_def split: option.split)
qed

lemma list_all_product_upt:
  "list_all (\<lambda>(r, c). P r c) (List.product [0..<n] [0..<m]) \<longleftrightarrow> (\<forall>r<n. \<forall>c<m. P r c)"
  by (auto simp: list_all_iff)

lemma isSafe_unit_iff:
  assumes "isBoard b" and "row < length b" and "col < length b"
  shows "isSafe b row col v \<longleftrightarrow>
     (\<forall>r<length b. \<forall>c<length b.
        sameUnit (boxSizeOf (length b)) (row, col) (r, c) \<longrightarrow> b ! r ! c \<noteq> v)"
proof -
  define n where "n = length b"
  define k where "k = boxSizeOf n"
  have sq: "k * k = n" using assms(1) by (simp add: k_def n_def isBoard_square)
  have rown: "row < n" and coln: "col < n" using assms(2,3) by (simp_all add: n_def)
  then have k: "0 < k" using sq by (cases k) auto
  have cell: "cellAt b r c = Some (b ! r ! c)" if "r < n" "c < n" for r c
    using that assms(1) by (simp add: isBoard_cellAt n_def)
  have top: "row - row mod k + k \<le> n" using box_inside(1)[of row k] rown sq by simp
  have left: "col - col mod k + k \<le> n" using box_inside(1)[of col k] coln sq by simp
  have rowscan: "(\<forall>x<n. cellAt b row x \<noteq> Some v) \<longleftrightarrow> (\<forall>x<n. b ! row ! x \<noteq> v)"
    using cell[OF rown] by simp
  have colscan: "(\<forall>x<n. cellAt b x col \<noteq> Some v) \<longleftrightarrow> (\<forall>x<n. b ! x ! col \<noteq> v)"
    using cell[OF _ coln] by simp
  have box: "(\<forall>i<k. \<forall>j<k. cellAt b (i + (row - row mod k)) (j + (col - col mod k)) \<noteq> Some v)
      \<longleftrightarrow> (\<forall>r<n. \<forall>c<n. row div k = r div k \<and> col div k = c div k \<longrightarrow> b ! r ! c \<noteq> v)"
    (is "?L \<longleftrightarrow> ?R")
  proof
    assume L: ?L
    show ?R
    proof (intro allI impI)
      fix r c assume rc: "r < n" "c < n" "row div k = r div k \<and> col div k = c div k"
      then have "r div k = row div k" "c div k = col div k" by simp_all
      then obtain i j where "i < k" "r = i + (row - row mod k)" "j < k" "c = j + (col - col mod k)"
        using in_box_iff[OF k, of r row] in_box_iff[OF k, of c col] by blast
      with L have "cellAt b r c \<noteq> Some v" by blast
      then show "b ! r ! c \<noteq> v" using cell rc by simp
    qed
  next
    assume R: ?R
    show ?L
    proof (intro allI impI)
      fix i j assume ij: "i < k" "j < k"
      have inb: "i + (row - row mod k) < n" "j + (col - col mod k) < n"
        using ij top left by linarith+
      have "(i + (row - row mod k)) div k = row div k" "(j + (col - col mod k)) div k = col div k"
        using in_box_iff[OF k, of "i + (row - row mod k)" row]
          in_box_iff[OF k, of "j + (col - col mod k)" col] ij by blast+
      then have "row div k = (i + (row - row mod k)) div k \<and>
          col div k = (j + (col - col mod k)) div k" by simp
      with R inb have "b ! (i + (row - row mod k)) ! (j + (col - col mod k)) \<noteq> v" by blast
      then show "cellAt b (i + (row - row mod k)) (j + (col - col mod k)) \<noteq> Some v"
        using cell inb by simp
    qed
  qed
  have "isSafe b row col v \<longleftrightarrow>
      (\<forall>x<n. cellAt b row x \<noteq> Some v) \<and> (\<forall>x<n. cellAt b x col \<noteq> Some v) \<and>
      (\<forall>i<k. \<forall>j<k. cellAt b (i + (row - row mod k)) (j + (col - col mod k)) \<noteq> Some v)"
    by (simp only: isSafe_iff[of b row col v] n_def k_def)
  also have "\<dots> \<longleftrightarrow>
      (\<forall>x<n. b ! row ! x \<noteq> v) \<and> (\<forall>x<n. b ! x ! col \<noteq> v) \<and>
      (\<forall>r<n. \<forall>c<n. row div k = r div k \<and> col div k = c div k \<longrightarrow> b ! r ! c \<noteq> v)"
    by (simp only: rowscan colscan box)
  also have "\<dots> \<longleftrightarrow> (\<forall>r<n. \<forall>c<n. sameUnit k (row, col) (r, c) \<longrightarrow> b ! r ! c \<noteq> v)"
    unfolding sameUnit_def fst_conv snd_conv
  proof (intro iffI conjI allI impI)
    fix r c
    assume h: "(\<forall>x<n. b ! row ! x \<noteq> v) \<and> (\<forall>x<n. b ! x ! col \<noteq> v) \<and>
      (\<forall>r<n. \<forall>c<n. row div k = r div k \<and> col div k = c div k \<longrightarrow> b ! r ! c \<noteq> v)"
      and rc: "r < n" "c < n"
      and u: "row = r \<or> col = c \<or> row div k = r div k \<and> col div k = c div k"
    from u show "b ! r ! c \<noteq> v"
    proof (elim disjE)
      assume "row = r" with h rc show ?thesis by blast
    next
      assume "col = c" with h rc show ?thesis by blast
    next
      assume "row div k = r div k \<and> col div k = c div k" with h rc show ?thesis by blast
    qed
  next
    fix x
    assume d: "\<forall>r<n. \<forall>c<n. row = r \<or> col = c \<or> row div k = r div k \<and> col div k = c div k
        \<longrightarrow> b ! r ! c \<noteq> v" and x: "x < n"
    from d rown x show "b ! row ! x \<noteq> v" by blast
  next
    fix x
    assume d: "\<forall>r<n. \<forall>c<n. row = r \<or> col = c \<or> row div k = r div k \<and> col div k = c div k
        \<longrightarrow> b ! r ! c \<noteq> v" and x: "x < n"
    from d coln x show "b ! x ! col \<noteq> v" by blast
  next
    fix r c
    assume d: "\<forall>r<n. \<forall>c<n. row = r \<or> col = c \<or> row div k = r div k \<and> col div k = c div k
        \<longrightarrow> b ! r ! c \<noteq> v" and rc: "r < n" "c < n"
      "row div k = r div k \<and> col div k = c div k"
    then show "b ! r ! c \<noteq> v" by blast
  qed
  finally show ?thesis by (simp only: n_def k_def)
qed
lemma nth_setCell:
  "isBoard b \<Longrightarrow> r < length b \<Longrightarrow> c < length b \<Longrightarrow> r' < length b \<Longrightarrow> c' < length b \<Longrightarrow>
     setCell b r c v ! r' ! c' = (if r' = r \<and> c' = c then v else b ! r' ! c')"
  using cellAt_setCell[of b r c v r' c'] isBoard_cellAt[of b r' c'] isBoard_cellAt[of b r c]
    isBoard_cellAt[of "setCell b r c v" r' c']
  by (auto split: if_splits)

lemma cellOk_iff:
  assumes "isBoard b" and "r < length b" and "c < length b"
  shows "cellOk b r c \<longleftrightarrow>
     (b ! r ! c \<noteq> 0 \<longrightarrow>
        (\<forall>r2<length b. \<forall>c2<length b.
           (r, c) \<noteq> (r2, c2) \<and> sameUnit (boxSizeOf (length b)) (r, c) (r2, c2) \<longrightarrow>
             b ! r2 ! c2 \<noteq> b ! r ! c))"
proof (cases "b ! r ! c = 0")
  case True
  then show ?thesis using assms by (simp add: cellOk_def isBoard_cellAt)
next
  case False
  have "isSafe (setCell b r c 0) r c (b ! r ! c) \<longleftrightarrow>
      (\<forall>r2<length b. \<forall>c2<length b.
         sameUnit (boxSizeOf (length b)) (r, c) (r2, c2) \<longrightarrow> setCell b r c 0 ! r2 ! c2 \<noteq> b ! r ! c)"
    using isSafe_unit_iff[of "setCell b r c 0" r c "b ! r ! c"] assms by simp
  also have "\<dots> \<longleftrightarrow>
      (\<forall>r2<length b. \<forall>c2<length b.
         (r, c) \<noteq> (r2, c2) \<and> sameUnit (boxSizeOf (length b)) (r, c) (r2, c2) \<longrightarrow>
           b ! r2 ! c2 \<noteq> b ! r ! c)"
    using False assms by (auto simp: nth_setCell)
  finally show ?thesis using False assms by (simp add: cellOk_def isBoard_cellAt)
qed

lemma sameUnit_sym: "sameUnit k p q = sameUnit k q p"
  by (auto simp: sameUnit_def)

lemma isValidSudoku_eq:
  assumes "isBoard b"
  shows "isValidSudoku b = Some (\<not> hasConflict b, b)"
proof -
  have inside: "\<forall>(r, c) \<in> set (List.product [0..<length b] [0..<length b]). cellAt b r c \<noteq> None"
    using assms by (auto simp: isBoard_cellAt)
  have "(\<forall>r<length b. \<forall>c<length b. cellOk b r c) \<longleftrightarrow> \<not> hasConflict b"
  proof
    assume ok: "\<forall>r<length b. \<forall>c<length b. cellOk b r c"
    show "\<not> hasConflict b"
    proof
      assume "hasConflict b"
      then obtain r1 c1 r2 c2 where rc: "r1 < length b" "c1 < length b" "r2 < length b" "c2 < length b"
        and c: "(r1, c1) \<noteq> (r2, c2)" "b ! r1 ! c1 \<noteq> 0" "b ! r1 ! c1 = b ! r2 ! c2"
          "sameUnit (boxSizeOf (length b)) (r1, c1) (r2, c2)"
        unfolding hasConflict_def Let_def by auto
      from ok rc have "cellOk b r1 c1" by blast
      with cellOk_iff[OF assms rc(1,2)] c rc show False by metis
    qed
  next
    assume nc: "\<not> hasConflict b"
    show "\<forall>r<length b. \<forall>c<length b. cellOk b r c"
    proof (intro allI impI)
      fix r c assume rc: "r < length b" "c < length b"
      show "cellOk b r c"
        unfolding cellOk_iff[OF assms rc]
      proof (intro impI allI)
        fix r2 c2
        assume h: "b ! r ! c \<noteq> 0" "r2 < length b" "c2 < length b"
          "(r, c) \<noteq> (r2, c2) \<and> sameUnit (boxSizeOf (length b)) (r, c) (r2, c2)"
        show "b ! r2 ! c2 \<noteq> b ! r ! c"
        proof
          assume "b ! r2 ! c2 = b ! r ! c"
          with h rc have "hasConflict b"
            unfolding hasConflict_def Let_def
            by (intro bexI[of _ r] bexI[of _ c] bexI[of _ r2] bexI[of _ c2]) auto
          with nc show False ..
        qed
      qed
    qed
  qed
  then show ?thesis
    unfolding isValidSudoku_def validScan_eq[OF inside] by (simp add: list_all_product_upt)
qed

lemma hasConflict_iff:
  "hasConflict b \<longleftrightarrow>
     (\<exists>r1 c1 r2 c2. r1 < length b \<and> c1 < length b \<and> r2 < length b \<and> c2 < length b \<and>
        (r1, c1) \<noteq> (r2, c2) \<and> b ! r1 ! c1 \<noteq> 0 \<and> b ! r1 ! c1 = b ! r2 ! c2 \<and>
        sameUnit (boxSizeOf (length b)) (r1, c1) (r2, c2))"
  unfolding hasConflict_def Let_def Bex_def by (simp only: atLeastLessThan_iff le0 simp_thms) blast

lemma hasConflict_clear:
  assumes "isBoard b" and "\<not> hasConflict b"
  shows "\<not> hasConflict (setCell b r c 0)"
proof
  assume "hasConflict (setCell b r c 0)"
  then obtain r1 c1 r2 c2 where rc: "r1 < length b" "c1 < length b" "r2 < length b" "c2 < length b"
    and ne: "(r1, c1) \<noteq> (r2, c2)"
    and v: "setCell b r c 0 ! r1 ! c1 \<noteq> 0" "setCell b r c 0 ! r1 ! c1 = setCell b r c 0 ! r2 ! c2"
    and u: "sameUnit (boxSizeOf (length b)) (r1, c1) (r2, c2)"
    unfolding hasConflict_iff by auto
  show False
  proof (cases "r < length b \<and> c < length b")
    case True
    with v rc assms(1) have "b ! r1 ! c1 \<noteq> 0" "b ! r1 ! c1 = b ! r2 ! c2"
      by (auto simp: nth_setCell split: if_splits)
    with rc ne u assms(2) show False unfolding hasConflict_iff by blast
  next
    case False
    then have "cellAt b r c = None" using assms(1) by (auto simp: cellAt_def isBoard_row)
    then have "setCell b r c 0 = b" by (rule setCell_out)
    with v rc ne u assms(2) show False unfolding hasConflict_iff by auto
  qed
qed

lemma hasConflict_place:
  assumes "isBoard b" and "\<not> hasConflict b" and "row < length b" and "col < length b"
    and "v \<noteq> 0" and "isSafe b row col v"
  shows "\<not> hasConflict (setCell b row col v)"
proof
  assume "hasConflict (setCell b row col v)"
  then obtain r1 c1 r2 c2 where rc: "r1 < length b" "c1 < length b" "r2 < length b" "c2 < length b"
    and ne: "(r1, c1) \<noteq> (r2, c2)"
    and w: "setCell b row col v ! r1 ! c1 \<noteq> 0"
      "setCell b row col v ! r1 ! c1 = setCell b row col v ! r2 ! c2"
    and u: "sameUnit (boxSizeOf (length b)) (r1, c1) (r2, c2)"
    unfolding hasConflict_iff by auto
  note safe = isSafe_unit_iff[OF assms(1,3,4), of v, THEN iffD1, OF assms(6), rule_format]
  consider "(r1, c1) = (row, col)" | "(r2, c2) = (row, col)"
    | "(r1, c1) \<noteq> (row, col)" "(r2, c2) \<noteq> (row, col)" by blast
  then show False
  proof cases
    case 1
    with ne w rc assms(1,3,4) have "b ! r2 ! c2 = v"
      by (auto simp: nth_setCell split: if_splits)
    moreover from 1 u have "sameUnit (boxSizeOf (length b)) (row, col) (r2, c2)" by simp
    ultimately show False using safe[OF rc(3,4)] by simp
  next
    case 2
    with ne w rc assms(1,3,4) have "b ! r1 ! c1 = v"
      by (auto simp: nth_setCell split: if_splits)
    moreover from 2 u have "sameUnit (boxSizeOf (length b)) (row, col) (r1, c1)"
      by (simp add: sameUnit_sym)
    ultimately show False using safe[OF rc(1,2)] by simp
  next
    case 3
    with w rc assms(1,3,4) have "b ! r1 ! c1 \<noteq> 0" "b ! r1 ! c1 = b ! r2 ! c2"
      by (auto simp: nth_setCell split: if_splits)
    with rc ne u assms(2) show False unfolding hasConflict_iff by blast
  qed
qed

lemma cellAt_Some_less: "cellAt b r c = Some v \<Longrightarrow> r < length b \<and> c < length (b ! r)"
  by (simp add: cellAt_def split: if_splits)

lemma solve_valid:
  "solve b s = (ok, b', s') \<Longrightarrow> isBoard b \<Longrightarrow> \<not> hasConflict b \<Longrightarrow>
     isBoard b' \<and> \<not> hasConflict b'"
  "tryNums b s row col num = (ok, b', s') \<Longrightarrow> cellAt b row col = Some 0 \<Longrightarrow> 1 \<le> num \<Longrightarrow>
     isBoard b \<Longrightarrow> \<not> hasConflict b \<Longrightarrow> isBoard b' \<and> \<not> hasConflict b'"
proof (induction b s and b s row col num arbitrary: ok b' s' and ok b' s'
    rule: solve_tryNums.induct)
  case (1 board stepCount)
  show ?case
  proof (cases "firstEmpty board")
    case None
    with 1(2-) show ?thesis by (auto simp: solve.simps)
  next
    case (Some p)
    obtain row col where p: "p = (row, col)" by (cases p)
    from 1(2) Some p have "tryNums board (Suc stepCount) row col 1 = (ok, b', s')"
      by (simp add: solve.simps)
    from 1(1)[OF Some p[symmetric] this firstEmpty_Some[OF Some[unfolded p]] _ 1(3,4)]
    show ?thesis by simp
  qed
next
  case (2 board stepCount row col num)
  note zero = \<open>cellAt board row col = Some 0\<close>
  note res = \<open>tryNums board stepCount row col num = (ok, b', s')\<close>
  note wf = \<open>isBoard board\<close> and nc = \<open>\<not> hasConflict board\<close>
  from cellAt_Some_less[OF zero] wf have inb: "row < length board" "col < length board"
    by (auto simp: isBoard_row)
  show ?case
  proof (cases "num \<le> length board")
    case False
    with res wf nc show ?thesis by (auto simp: tryNums.simps)
  next
    case le: True
    show ?thesis
    proof (cases "isSafe board row col (int num)")
      case False
      with le res have "tryNums board stepCount row col (Suc num) = (ok, b', s')"
        by (simp add: tryNums.simps[of board])
      from 2(3)[OF le False this zero _ wf nc] show ?thesis by simp
    next
      case safe: True
      obtain ok1 b1 s1 where r: "solve (setCell board row col (int num)) stepCount = (ok1, b1, s1)"
        by (cases "solve (setCell board row col (int num)) stepCount") auto
      have placed: "\<not> hasConflict (setCell board row col (int num))"
        using hasConflict_place[OF wf nc inb _ safe] \<open>1 \<le> num\<close> by simp
      from 2(1)[OF le safe r _ placed] wf have v1: "isBoard b1 \<and> \<not> hasConflict b1" by simp
      show ?thesis
      proof (cases ok1)
        case True
        with le safe r res have "b' = b1" by (simp add: tryNums.simps[of board])
        with v1 show ?thesis by simp
      next
        case False
        with solve_frame(1)[OF r] have "b1 = setCell board row col (int num)" by simp
        then have restored: "setCell b1 row col 0 = board"
          using zero by (simp add: setCell_same)
        from le safe r False res
        have "tryNums (setCell b1 row col 0) s1 row col (Suc num) = (ok, b', s')"
          by (simp add: tryNums.simps[of board])
        from 2(2)[OF le safe r[symmetric] refl False this] restored zero wf nc
        show ?thesis by simp
      qed
    qed
  qed
qed

lemma firstEmpty_None_iff:
  "firstEmpty b = None \<longleftrightarrow> (\<forall>r<length b. \<forall>c<length b. cellAt b r c \<noteq> Some 0)"
  by (auto simp: firstEmpty_def find_None_iff)

text \<open>
  C7. On a board of the data model the validator hands the board back as it got it (each
  temporary clear is undone, on the conflict branch and on the other), and its answer is
  \<open>True\<close> exactly when every filled cell, cleared for the check, is safe for its own value: no
  filled cell is left out. The scan stops only at a conflict: scanning \<open>ps @ qs\<close> goes on into
  \<open>qs\<close> exactly when the scan of \<open>ps\<close> found no conflict, and otherwise ends with the result of
  \<open>ps\<close>.
\<close>

theorem isValidSudoku_scan:
  assumes "isBoard board"
  shows "isValidSudoku board =
           Some ((\<forall>row<length board. \<forall>col<length board.
                    board ! row ! col \<noteq> 0 \<longrightarrow>
                      isSafe (setCell board row col 0) row col (board ! row ! col)),
                 board) \<and>
         (\<forall>ps qs. validScan board (ps @ qs) =
            (case validScan board ps of Some (True, b') \<Rightarrow> validScan b' qs | r \<Rightarrow> r))"
proof -
  have inside: "\<forall>(r, c) \<in> set (List.product [0..<length board] [0..<length board]).
      cellAt board r c \<noteq> None"
    using assms by (auto simp: isBoard_cellAt)
  have "cellOk board r c \<longleftrightarrow>
      (board ! r ! c \<noteq> 0 \<longrightarrow> isSafe (setCell board r c 0) r c (board ! r ! c))"
    if "r < length board" "c < length board" for r c
    using that assms by (auto simp: cellOk_def isBoard_cellAt)
  then have "(\<forall>r<length board. \<forall>c<length board. cellOk board r c) \<longleftrightarrow>
      (\<forall>row<length board. \<forall>col<length board.
         board ! row ! col \<noteq> 0 \<longrightarrow> isSafe (setCell board row col 0) row col (board ! row ! col))"
    by simp
  then have "isValidSudoku board =
      Some ((\<forall>row<length board. \<forall>col<length board.
               board ! row ! col \<noteq> 0 \<longrightarrow>
                 isSafe (setCell board row col 0) row col (board ! row ! col)), board)"
    unfolding isValidSudoku_def validScan_eq[OF inside] by (simp add: list_all_product_upt)
  then show ?thesis using validScan_append by blast
qed

theorem isValidSudoku_scan_witness:
  "isBoard [[1, 2, 0, 0], [0, 0, 0, 0], [0, 0, 3, 0], [0, 0, 0, 3]] \<and>
   map_option snd (isValidSudoku [[1, 2, 0, 0], [0, 0, 0, 0], [0, 0, 3, 0], [0, 0, 0, 3]]) =
     Some [[1, 2, 0, 0], [0, 0, 0, 0], [0, 0, 3, 0], [0, 0, 0, 3]] \<and>
   validScan [[1, 2, 0, 0], [0, 0, 0, 0], [0, 0, 3, 0], [0, 0, 0, 3]]
       ([(0, 0), (0, 1), (2, 2)] @ [(3, 3), (3, 0)]) =
     Some (False, [[1, 2, 0, 0], [0, 0, 0, 0], [0, 0, 3, 0], [0, 0, 0, 3]])"
proof -
  let ?b = "[[1, 2, 0, 0], [0, 0, 0, 0], [0, 0, 3, 0], [0, 0, 0, 3]] :: board"
  have wb: "isBoard ?b" by code_simp
  have pre: "validScan ?b [(0, 0), (0, 1), (2, 2)] = Some (False, ?b)" by code_simp
  from isValidSudoku_scan[OF wb]
  have unchanged: "map_option snd (isValidSudoku ?b) = Some ?b"
    and split: "validScan ?b ([(0, 0), (0, 1), (2, 2)] @ [(3, 3), (3, 0)]) =
      (case validScan ?b [(0, 0), (0, 1), (2, 2)] of
         Some (True, b') \<Rightarrow> validScan b' [(3, 3), (3, 0)] | r \<Rightarrow> r)"
    by (simp_all only: option.map_sel option.simps snd_conv)
  from wb unchanged split pre show ?thesis by (simp only: option.simps prod.simps bool.simps simp_thms)
qed

section \<open>Frame and agreement of the solvers\<close>

text \<open>
  C9. The solver never changes a cell that is filled in its input: every cell that holds a
  non-zero value in the input holds the same value in the returned board, whatever \<open>solved\<close>
  is; and when \<open>solved\<close> is false the returned board is the input board, cell for cell (every
  tentative placement has been undone).
\<close>

theorem solveSudoku_frame:
  "(\<forall>row col v. cellAt board row col = Some v \<and> v \<noteq> 0 \<longrightarrow>
      cellAt (grid (solveSudoku board)) row col = Some v) \<and>
   (\<not> solved (solveSudoku board) \<longrightarrow> grid (solveSudoku board) = board)"
proof -
  obtain ok b' s' where r: "solve board 0 = (ok, b', s')"
    by (cases "solve board 0") auto
  from solve_frame(1)[OF r] show ?thesis
    by (simp add: solveSudoku_def r keeps_def)
qed

theorem solveSudoku_frame_witness:
  "cellAt (grid (solveSudoku [[1, 2, 0, 0], [3, 4, 0, 0], [0, 0, 1, 3], [0, 0, 2, 4]])) 2 3
     = Some 3 \<and>
   grid (solveSudoku [[1, 2, 0, 0], [3, 4, 0, 0], [0, 0, 1, 3], [0, 0, 2, 4]])
     = [[1, 2, 0, 0], [3, 4, 0, 0], [0, 0, 1, 3], [0, 0, 2, 4]]"
proof -
  let ?b = "[[1, 2, 0, 0], [3, 4, 0, 0], [0, 0, 1, 3], [0, 0, 2, 4]] :: board"
  have unsolved: "\<not> solved (solveSudoku ?b)" by code_simp
  have given: "cellAt ?b 2 3 = Some 3 \<and> (3::int) \<noteq> 0" by code_simp
  from solveSudoku_frame[of ?b] unsolved given show ?thesis by blast
qed

text \<open>
  C5. On a board with no empty cell that the validator accepts, the solver returns at once:
  \<open>solved = true\<close>, step count \<open>1\<close>, and the board unchanged.
\<close>

theorem solveSudoku_full_board:
  assumes "\<forall>row<length board. \<forall>col<length board. cellAt board row col \<noteq> Some 0"
    and "isValidSudoku board = Some (True, board)"
  shows "solveSudoku board = \<lparr>solved = True, grid = board, steps = 1\<rparr>"
proof -
  from assms(1) have "firstEmpty board = None" by (simp add: firstEmpty_None_iff)
  then show ?thesis by (simp add: solveSudoku_def solve.simps)
qed

theorem solveSudoku_full_board_witness:
  "solveSudoku [[1, 2, 3, 4], [3, 4, 1, 2], [2, 1, 4, 3], [4, 3, 2, 1]] =
     \<lparr>solved = True, grid = [[1, 2, 3, 4], [3, 4, 1, 2], [2, 1, 4, 3], [4, 3, 2, 1]], steps = 1\<rparr>"
proof -
  let ?b = "[[1, 2, 3, 4], [3, 4, 1, 2], [2, 1, 4, 3], [4, 3, 2, 1]] :: board"
  have full: "\<forall>row<length ?b. \<forall>col<length ?b. cellAt ?b row col \<noteq> Some 0"
    unfolding firstEmpty_None_iff[symmetric] by code_simp
  have valid: "isValidSudoku ?b = Some (True, ?b)" by code_simp
  from solveSudoku_full_board[OF full valid] show ?thesis .
qed

lemma solveAnim_solve:
  "withoutShown (solveAnim b s t) = solve b s"
  "withoutShown (tryNumsAnim b s t row col num) = tryNums b s row col num"
proof (induction b s t and b s t row col num rule: solveAnim_tryNumsAnim.induct)
  case (1 board stepCount shown)
  show ?case
  proof (cases "firstEmpty board")
    case None
    then show ?thesis by (simp add: solveAnim.simps solve.simps withoutShown_def)
  next
    case (Some p)
    obtain row col where p: "p = (row, col)" by (cases p)
    from 1[OF Some p[symmetric]] Some p show ?thesis
      by (simp add: solveAnim.simps solve.simps)
  qed
next
  case (2 board stepCount shown row col num)
  show ?case
  proof (cases "num \<le> length board")
    case False
    then show ?thesis
      by (simp add: tryNumsAnim.simps[of board] tryNums.simps[of board] withoutShown_def)
  next
    case le: True
    show ?thesis
    proof (cases "isSafe board row col (int num)")
      case False
      with le 2(3)[OF le False] show ?thesis
        by (simp add: tryNumsAnim.simps[of board] tryNums.simps[of board])
    next
      case safe: True
      define board1 where "board1 = setCell board row col (int num)"
      define shown1 where "shown1 = shown @ [board1]"
      obtain ok b1 s1 t1 where r: "solveAnim board1 stepCount shown1 = (ok, b1, s1, t1)"
        by (cases "solveAnim board1 stepCount shown1") auto
      from 2(1)[OF le safe board1_def shown1_def] r
      have plain: "solve board1 stepCount = (ok, b1, s1)"
        by (simp add: withoutShown_def)
      show ?thesis
      proof (cases ok)
        case True
        with le safe r plain show ?thesis
          by (simp add: tryNumsAnim.simps[of board] tryNums.simps[of board] Let_def
              withoutShown_def board1_def[symmetric] shown1_def[symmetric])
      next
        case False
        define board2 where "board2 = setCell b1 row col 0"
        define shown2 where "shown2 = t1 @ [board2]"
        from 2(2)[OF le safe board1_def shown1_def r[symmetric] refl refl False board2_def
            shown2_def]
        have "withoutShown (tryNumsAnim board2 s1 shown2 row col (Suc num)) =
              tryNums board2 s1 row col (Suc num)" .
        with le safe r plain False show ?thesis
          by (simp add: tryNumsAnim.simps[of board] tryNums.simps[of board] Let_def
              board1_def[symmetric] shown1_def[symmetric] board2_def[symmetric]
              shown2_def[symmetric])
      qed
    qed
  qed
qed

text \<open>
  C3. For every starting board the animated solver resolves to the result of the plain
  solver: the same \<open>solved\<close> flag and the same final board (and the same step count).
\<close>

theorem solveSudokuAnimated_agrees:
  "solved (fst (solveSudokuAnimated board)) = solved (solveSudoku board) \<and>
   grid (fst (solveSudokuAnimated board)) = grid (solveSudoku board) \<and>
   fst (solveSudokuAnimated board) = solveSudoku board"
proof -
  obtain ok b' s' t' where r: "solveAnim board 0 [] = (ok, b', s', t')"
    by (cases "solveAnim board 0 []") auto
  with solveAnim_solve(1)[of board 0 "[]"] have "solve board 0 = (ok, b', s')"
    by (simp add: withoutShown_def)
  with r show ?thesis by (simp add: solveSudokuAnimated_def solveSudoku_def)
qed

section \<open>The scenario board\<close>

text \<open>
  C4, as the specification states it: on the board
  \<open>[[1,2,3,4],[3,4,1,2],[2,1,4,3],[4,3,2,0]]\<close> the solver returns \<open>solved = true\<close> with the
  value \<open>4\<close> in the last cell. The source does not do that: row 3 already holds \<open>4\<close>.
\<close>

theorem solveSudoku_scenario_last_cell_not_4:
  "\<not> (solved (solveSudoku [[1, 2, 3, 4], [3, 4, 1, 2], [2, 1, 4, 3], [4, 3, 2, 0]]) = True \<and>
      cellAt (grid (solveSudoku [[1, 2, 3, 4], [3, 4, 1, 2], [2, 1, 4, 3], [4, 3, 2, 0]])) 3 3
        = Some 4)"
  by code_simp

text \<open>
  C4, amended: on that board the solver returns \<open>solved = true\<close>, the last cell (row 3,
  column 3) holds \<open>1\<close>, the only value missing from its row, column and box, and the other
  cells are as they were.
\<close>

theorem solveSudoku_scenario:
  "solved (solveSudoku [[1, 2, 3, 4], [3, 4, 1, 2], [2, 1, 4, 3], [4, 3, 2, 0]]) = True \<and>
   cellAt (grid (solveSudoku [[1, 2, 3, 4], [3, 4, 1, 2], [2, 1, 4, 3], [4, 3, 2, 0]])) 3 3
     = Some 1 \<and>
   grid (solveSudoku [[1, 2, 3, 4], [3, 4, 1, 2], [2, 1, 4, 3], [4, 3, 2, 0]])
     = [[1, 2, 3, 4], [3, 4, 1, 2], [2, 1, 4, 3], [4, 3, 2, 1]]"
  by code_simp

section \<open>Completeness of the search\<close>

text \<open>
  The search finds a solution whenever the board has a completion: the value the completion
  holds at the first empty cell is safe there, and the search does not pass it by.
\<close>

lemma completes_safe:
  assumes "completes f b" and "isBoard b" and "cellAt b row col = Some 0"
  shows "isSafe b row col (f ! row ! col)"
proof -
  from cellAt_Some_less[OF assms(3)] assms(2) have inb: "row < length b" "col < length b"
    by (auto simp: isBoard_row)
  from assms(1) have wf: "isBoard f" and len: "length f = length b" and nc: "\<not> hasConflict f"
    and kp: "keeps b f" by (simp_all add: completes_def)
  from assms(1) inb len have v: "1 \<le> f ! row ! col" by (auto simp: completes_def)
  from isBoard_cellAt[OF assms(2) inb] assms(3) have zero: "b ! row ! col = 0" by simp
  have "b ! r ! c \<noteq> f ! row ! col"
    if rc: "r < length b" "c < length b"
      and unit: "sameUnit (boxSizeOf (length b)) (row, col) (r, c)" for r c
  proof
    assume eq: "b ! r ! c = f ! row ! col"
    with v have nz: "b ! r ! c \<noteq> 0" by simp
    from isBoard_cellAt[OF assms(2) rc] have "cellAt b r c = Some (b ! r ! c)" .
    with kp nz have "cellAt f r c = Some (b ! r ! c)" unfolding keeps_def by blast
    moreover from isBoard_cellAt[OF wf] rc len have "cellAt f r c = Some (f ! r ! c)" by simp
    ultimately have same: "f ! r ! c = f ! row ! col" using eq by simp
    from nz zero have ne: "(row, col) \<noteq> (r, c)" by auto
    from v have "f ! row ! col \<noteq> 0" by simp
    with inb rc ne same unit len have "hasConflict f"
      unfolding hasConflict_iff by (metis)
    with nc show False by contradiction
  qed
  then show ?thesis unfolding isSafe_unit_iff[OF assms(2) inb] by blast
qed

lemma completes_setCell:
  assumes "completes f b" and "isBoard b" and "cellAt b row col = Some 0"
  shows "completes f (setCell b row col (f ! row ! col))"
proof -
  from cellAt_Some_less[OF assms(3)] assms(2) have inb: "row < length b" "col < length b"
    by (auto simp: isBoard_row)
  from assms(1) have wf: "isBoard f" and len: "length f = length b"
    and kp: "keeps b f" by (simp_all add: completes_def)
  from isBoard_cellAt[OF wf] inb len have here: "cellAt f row col = Some (f ! row ! col)" by simp
  have "keeps (setCell b row col (f ! row ! col)) f"
    unfolding keeps_def
  proof (intro allI impI)
    fix r c v
    assume a: "cellAt (setCell b row col (f ! row ! col)) r c = Some v \<and> v \<noteq> 0"
    show "cellAt f r c = Some v"
    proof (cases "r = row \<and> c = col")
      case True
      with a assms(3) have "v = f ! row ! col" by (simp add: cellAt_setCell)
      with True here show ?thesis by simp
    next
      case False
      with a have "cellAt b r c = Some v \<and> v \<noteq> 0" by (auto simp: cellAt_setCell)
      with kp show ?thesis unfolding keeps_def by blast
    qed
  qed
  with assms(1) show ?thesis by (auto simp: completes_def)
qed

lemma solve_complete:
  "solve b s = (ok, b', s') \<Longrightarrow> isBoard b \<Longrightarrow> completes f b \<Longrightarrow> ok"
  "tryNums b s row col num = (ok, b', s') \<Longrightarrow> isBoard b \<Longrightarrow> cellAt b row col = Some 0 \<Longrightarrow>
     completes f b \<Longrightarrow> int num \<le> f ! row ! col \<Longrightarrow> ok"
proof (induction b s and b s row col num arbitrary: ok b' s' and ok b' s'
    rule: solve_tryNums.induct)
  case (1 board stepCount)
  show ?case
  proof (cases "firstEmpty board")
    case None
    with 1(2) show ?thesis by (auto simp: solve.simps)
  next
    case (Some p)
    obtain row col where p: "p = (row, col)" by (cases p)
    from 1(2) Some p have t: "tryNums board (Suc stepCount) row col 1 = (ok, b', s')"
      by (simp add: solve.simps)
    note zero = firstEmpty_Some[OF Some[unfolded p]]
    from cellAt_Some_less[OF zero] 1(3) have inb: "row < length board" "col < length board"
      by (auto simp: isBoard_row)
    with 1(4) have "int 1 \<le> f ! row ! col" by (auto simp: completes_def)
    from 1(1)[OF Some p[symmetric] t 1(3) zero 1(4) this] show ?thesis .
  qed
next
  case (2 board stepCount row col num)
  note res = \<open>tryNums board stepCount row col num = (ok, b', s')\<close>
  note wf = \<open>isBoard board\<close> and zero = \<open>cellAt board row col = Some 0\<close>
  note comp = \<open>completes f board\<close> and lower = \<open>int num \<le> f ! row ! col\<close>
  from cellAt_Some_less[OF zero] wf have inb: "row < length board" "col < length board"
    by (auto simp: isBoard_row)
  from comp inb have upper: "f ! row ! col \<le> int (length board)" by (auto simp: completes_def)
  with lower have le: "num \<le> length board" by simp
  show ?case
  proof (cases "isSafe board row col (int num)")
    case False
    with completes_safe[OF comp wf zero] have "f ! row ! col \<noteq> int num" by auto
    with lower have next_lower: "int (Suc num) \<le> f ! row ! col" by simp
    from le False res have "tryNums board stepCount row col (Suc num) = (ok, b', s')"
      by (simp add: tryNums.simps[of board])
    from 2(3)[OF le False this wf zero comp next_lower] show ?thesis .
  next
    case safe: True
    obtain ok1 b1 s1 where r: "solve (setCell board row col (int num)) stepCount = (ok1, b1, s1)"
      by (cases "solve (setCell board row col (int num)) stepCount") auto
    show ?thesis
    proof (cases ok1)
      case True
      with le safe r res show ?thesis by (simp add: tryNums.simps[of board])
    next
      case False
      have "f ! row ! col \<noteq> int num"
      proof
        assume eq: "f ! row ! col = int num"
        from completes_setCell[OF comp wf zero] eq
        have "completes f (setCell board row col (int num))" by simp
        from 2(1)[OF le safe r _ this] wf False show False by simp
      qed
      with lower have next_lower: "int (Suc num) \<le> f ! row ! col" by simp
      from False solve_frame(1)[OF r] have "b1 = setCell board row col (int num)" by simp
      then have restored: "setCell b1 row col 0 = board"
        using zero by (simp add: setCell_same)
      from le safe r False res
      have "tryNums (setCell b1 row col 0) s1 row col (Suc num) = (ok, b', s')"
        by (simp add: tryNums.simps[of board])
      from 2(2)[OF le safe r[symmetric] refl False this] restored wf zero comp next_lower
      show ?thesis by simp
    qed
  qed
qed

text \<open>A completion given as a list of rows, checked cell by cell.\<close>

lemma keeps_nth:
  assumes "isBoard b" and "length f = length b"
    and "list_all (\<lambda>(r, c). b ! r ! c = 0 \<or> cellAt f r c = Some (b ! r ! c))
           (List.product [0..<length b] [0..<length b])"
  shows "keeps b f"
  unfolding keeps_def
proof (intro allI impI)
  fix r c v
  assume a: "cellAt b r c = Some v \<and> v \<noteq> 0"
  with cellAt_Some_less[of b r c v] assms(1) have rc: "r < length b" "c < length b"
    by (auto simp: isBoard_row)
  with isBoard_cellAt[OF assms(1) rc] a have v: "b ! r ! c = v" by simp
  from rc have "(r, c) \<in> set (List.product [0..<length b] [0..<length b])" by simp
  with assms(3) have "b ! r ! c = 0 \<or> cellAt f r c = Some (b ! r ! c)"
    unfolding list_all_iff by blast
  with a v show "cellAt f r c = Some v" by simp
qed

lemma completes_nth:
  assumes "isBoard b" and "isBoard f" and "length f = length b"
    and "isValidSudoku f = Some (True, f)"
    and "list_all (\<lambda>(r, c). b ! r ! c = 0 \<or> cellAt f r c = Some (b ! r ! c))
           (List.product [0..<length b] [0..<length b])"
    and "list_all (list_all (\<lambda>v. 1 \<le> v \<and> v \<le> int (length f))) f"
  shows "completes f b"
proof -
  from assms(4) isValidSudoku_eq[OF assms(2)] have nc: "\<not> hasConflict f" by simp
  have "1 \<le> f ! r ! c \<and> f ! r ! c \<le> int (length f)" if "r < length f" "c < length f" for r c
  proof -
    from that assms(2) have "f ! r \<in> set f" "f ! r ! c \<in> set (f ! r)"
      by (simp_all add: isBoard_row)
    with assms(6) show ?thesis unfolding list_all_iff by blast
  qed
  with assms(2,3) nc keeps_nth[OF assms(1,3,5)] show ?thesis by (simp add: completes_def)
qed

lemma solveSudoku_complete:
  assumes "isBoard b" and "completes f b"
  shows "solved (solveSudoku b)" and "firstEmpty (grid (solveSudoku b)) = None"
proof -
  obtain ok b' s' where r: "solve b 0 = (ok, b', s')" by (cases "solve b 0") auto
  from solve_complete(1)[OF r assms] have ok .
  with solve_frame(1)[OF r] have "firstEmpty b' = None" by simp
  with r \<open>ok\<close> show "solved (solveSudoku b)" and "firstEmpty (grid (solveSudoku b)) = None"
    by (simp_all add: solveSudoku_def)
qed

section \<open>Properties of the double-precision arithmetic\<close>

lemma pow2_powi: "pow2 e = 2 powi e"
  by (simp add: pow2_def power_int_def inverse_eq_divide power_one_over)

lemma pow2_pos: "0 < pow2 e"
  by (simp add: pow2_powi)

lemma pow2_Suc: "pow2 (e + 1) = 2 * pow2 e"
  by (simp add: pow2_powi power_int_add)

lemma pow2_pred: "pow2 (e - 1) = pow2 e / 2"
  using pow2_Suc [of "e - 1"] by simp

lemma pow2_add: "pow2 (a + b) = pow2 a * pow2 b"
  by (simp add: pow2_powi power_int_add)

lemma pow2_mono: "a \<le> b \<Longrightarrow> pow2 a \<le> pow2 b"
  by (simp add: pow2_powi power_int_increasing)

lemma pow2_nat: "pow2 (int n) = 2 ^ n"
  by (simp add: pow2_def)

text \<open>The exponent found brackets the number.\<close>

lemma expUp_bounds:
  "1 \<le> x \<Longrightarrow> 0 \<le> e \<Longrightarrow> e \<le> 1023 \<Longrightarrow> x * pow2 e < 2 ^ 1024 \<Longrightarrow>
     e \<le> expUp e x \<and> pow2 (expUp e x) \<le> x * pow2 e \<and> x * pow2 e < pow2 (expUp e x + 1)"
proof (induction e x rule: expUp.induct)
  case (1 e x)
  show ?case
  proof (cases "x < 2")
    case True
    with 1(2) pow2_pos [of e] show ?thesis
      by (simp add: expUp.simps [of e x] pow2_Suc)
  next
    case False
    have "e \<noteq> 1023"
    proof
      assume "e = 1023"
      then have "pow2 e = 2 ^ 1023" using pow2_nat [of 1023] by simp
      with False have "2 * 2 ^ 1023 \<le> x * pow2 e" by simp
      with 1(5) show False by simp
    qed
    with 1(4) have e: "\<not> 1023 \<le> e" "e + 1 \<le> 1023" by simp_all
    have half: "x / 2 * pow2 (e + 1) = x * pow2 e" by (simp add: pow2_Suc)
    from False have "1 \<le> x / 2" by simp
    moreover from 1(3) have "0 \<le> e + 1" by simp
    moreover from 1(5) have "x / 2 * pow2 (e + 1) < 2 ^ 1024" by (simp only: half)
    ultimately have "e + 1 \<le> expUp (e + 1) (x / 2) \<and>
        pow2 (expUp (e + 1) (x / 2)) \<le> x / 2 * pow2 (e + 1) \<and>
        x / 2 * pow2 (e + 1) < pow2 (expUp (e + 1) (x / 2) + 1)"
      using e(2) by (intro 1(1)) (simp_all add: False e(1))
    moreover have "expUp e x = expUp (e + 1) (x / 2)"
      using False e(1) by (simp add: expUp.simps [of e x])
    ultimately show ?thesis by (simp only: half) simp
  qed
qed

lemma expDown_bounds:
  "0 < x \<Longrightarrow> x < 2 \<Longrightarrow> e \<le> 0 \<Longrightarrow> - 1022 \<le> e \<Longrightarrow>
     - 1022 \<le> expDown e x \<and> expDown e x \<le> e \<and> x * pow2 e < pow2 (expDown e x + 1) \<and>
     (pow2 (expDown e x) \<le> x * pow2 e \<or> expDown e x = - 1022)"
proof (induction e x rule: expDown.induct)
  case (1 e x)
  show ?case
  proof (cases "1 \<le> x \<or> e \<le> - 1022")
    case True
    then have eq: "expDown e x = e" by (simp add: expDown.simps [of e x])
    have "x * pow2 e < pow2 (e + 1)" using 1(3) pow2_pos [of e] by (simp add: pow2_Suc)
    moreover have "pow2 e \<le> x * pow2 e \<or> e = - 1022"
      using True 1(5) pow2_pos [of e] by auto
    ultimately show ?thesis using 1(5) by (simp only: eq) simp
  next
    case False
    then have x: "x < 1" and e: "- 1022 \<le> e - 1" by simp_all
    have dbl: "x * 2 * pow2 (e - 1) = x * pow2 e" by (simp add: pow2_pred)
    from 1(2) have "0 < x * 2" by simp
    moreover from x have "x * 2 < 2" by simp
    moreover from 1(4) have "e - 1 \<le> 0" by simp
    ultimately have "- 1022 \<le> expDown (e - 1) (x * 2) \<and> expDown (e - 1) (x * 2) \<le> e - 1 \<and>
        x * 2 * pow2 (e - 1) < pow2 (expDown (e - 1) (x * 2) + 1) \<and>
        (pow2 (expDown (e - 1) (x * 2)) \<le> x * 2 * pow2 (e - 1) \<or>
         expDown (e - 1) (x * 2) = - 1022)"
      using e False by (intro 1(1)) simp_all
    moreover have "expDown e x = expDown (e - 1) (x * 2)"
      using False by (simp add: expDown.simps [of e x])
    ultimately show ?thesis by (simp only: dbl) simp
  qed
qed

lemma exponent_bounds:
  assumes "0 < x" and "x < 2 ^ 1024"
  shows "x < pow2 (exponent x + 1)"
    and "pow2 (exponent x) \<le> x \<or> exponent x = - 1022"
    and "- 1022 \<le> exponent x"
proof -
  have p0: "pow2 0 = 1" by (simp add: pow2_def)
  have all: "x < pow2 (exponent x + 1) \<and> (pow2 (exponent x) \<le> x \<or> exponent x = - 1022) \<and>
      - 1022 \<le> exponent x"
  proof (cases "1 \<le> x")
    case True
    with assms(2) expUp_bounds [of x 0] show ?thesis by (simp add: exponent_def p0)
  next
    case False
    with assms(1) expDown_bounds [of x 0] show ?thesis by (simp add: exponent_def p0)
  qed
  from all show "x < pow2 (exponent x + 1)" by simp
  from all show "pow2 (exponent x) \<le> x \<or> exponent x = - 1022" by simp
  from all show "- 1022 \<le> exponent x" by simp
qed

lemma exponent_mono:
  assumes "0 < x" and "x \<le> y" and "y < 2 ^ 1024"
  shows "exponent x \<le> exponent y"
proof (rule ccontr)
  assume "\<not> exponent x \<le> exponent y"
  then have less: "exponent y + 1 \<le> exponent x" by simp
  from assms have x: "x < 2 ^ 1024" and y: "0 < y" by simp_all
  from less exponent_bounds(3) [OF y assms(3)] have "exponent x \<noteq> - 1022" by simp
  with exponent_bounds(2) [OF assms(1) x] have "pow2 (exponent x) \<le> x" by simp
  moreover from exponent_bounds(1) [OF y assms(3)] have "y < pow2 (exponent y + 1)" .
  moreover from less have "pow2 (exponent y + 1) \<le> pow2 (exponent x)" by (rule pow2_mono)
  ultimately show False using assms(2) by simp
qed

text \<open>Rounding to the nearest integer keeps the order and fixes the integers.\<close>

lemma roundEven_cases: "roundEven q = \<lfloor>q\<rfloor> \<or> roundEven q = \<lfloor>q\<rfloor> + 1"
  by (simp add: roundEven_def Let_def)

lemma roundEven_int: "roundEven (of_int k) = k"
  by (simp add: roundEven_def)

lemma roundEven_mono:
  assumes "a \<le> b"
  shows "roundEven a \<le> roundEven b"
proof -
  from assms have fl: "\<lfloor>a\<rfloor> \<le> \<lfloor>b\<rfloor>" by (rule floor_mono)
  show ?thesis
  proof (cases "\<lfloor>a\<rfloor> = \<lfloor>b\<rfloor>")
    case True
    with assms have "a - of_int \<lfloor>a\<rfloor> \<le> b - of_int \<lfloor>b\<rfloor>" by simp
    with True show ?thesis by (auto simp: roundEven_def Let_def)
  next
    case False
    with fl have "\<lfloor>a\<rfloor> + 1 \<le> \<lfloor>b\<rfloor>" by simp
    with roundEven_cases [of a] roundEven_cases [of b] show ?thesis by auto
  qed
qed

text \<open>Rounding to the nearest double keeps the order of the numbers from \<open>0\<close> on.\<close>

lemma roundDouble_pos:
  "0 < x \<Longrightarrow>
     roundDouble x = of_int (roundEven (x / pow2 (exponent x - 52))) * pow2 (exponent x - 52)"
  by (simp add: roundDouble_def Let_def)

lemma roundDouble_nonneg:
  assumes "0 \<le> x"
  shows "0 \<le> roundDouble x"
proof (cases "x = 0")
  case True
  then show ?thesis by (simp add: roundDouble_def)
next
  case False
  with assms have x: "0 < x" by simp
  have "roundEven 0 \<le> roundEven (x / pow2 (exponent x - 52))"
    using x pow2_pos [of "exponent x - 52"] by (intro roundEven_mono) simp
  then have "0 \<le> roundEven (x / pow2 (exponent x - 52))"
    using roundEven_int [of 0] by simp
  with pow2_pos [of "exponent x - 52"] show ?thesis
    by (simp add: roundDouble_pos [OF x])
qed

lemma roundDouble_mono:
  assumes "0 \<le> x" and "x \<le> y" and "y < 2 ^ 1024"
  shows "roundDouble x \<le> roundDouble y"
proof (cases "x = 0")
  case True
  with assms roundDouble_nonneg [of y] show ?thesis by (simp add: roundDouble_def)
next
  case False
  with assms have x: "0 < x" and y: "0 < y" and x': "x < 2 ^ 1024" by simp_all
  define a where "a = pow2 (exponent x - 52)"
  define b where "b = pow2 (exponent y - 52)"
  have a: "0 < a" and b: "0 < b" by (simp_all add: a_def b_def pow2_pos)
  have rx: "roundDouble x = of_int (roundEven (x / a)) * a"
    and ry: "roundDouble y = of_int (roundEven (y / b)) * b"
    using x y by (simp_all add: roundDouble_pos a_def b_def)
  from exponent_mono [OF x assms(2,3)] have le: "exponent x \<le> exponent y" .
  show ?thesis
  proof (cases "exponent x = exponent y")
    case True
    then have "a = b" by (simp add: a_def b_def)
    moreover have "roundEven (x / a) \<le> roundEven (y / a)"
      using a assms(2) by (intro roundEven_mono) (simp add: divide_right_mono)
    ultimately show ?thesis using a by (simp add: rx ry)
  next
    case False
    with le have less: "exponent x + 1 \<le> exponent y" by simp
    with exponent_bounds(3) [OF x x'] have "exponent y \<noteq> - 1022" by simp
    with exponent_bounds(2) [OF y assms(3)] have low_y: "pow2 (exponent y) \<le> y" by simp
    have "exponent y = 52 + (exponent y - 52)" by simp
    then have "pow2 (exponent y) = pow2 52 * b"
      unfolding b_def by (metis pow2_add)
    with pow2_nat [of 52] have pb: "pow2 (exponent y) = 2 ^ 52 * b" by simp
    with low_y have "of_int (2 ^ 52) \<le> y / b" using b by (simp add: pos_le_divide_eq)
    then have "roundEven (of_int (2 ^ 52)) \<le> roundEven (y / b)" by (rule roundEven_mono)
    then have "2 ^ 52 \<le> roundEven (y / b)" by (simp only: roundEven_int)
    then have "(2 ^ 52 :: rat) \<le> of_int (roundEven (y / b))"
      by (metis of_int_le_iff of_int_numeral of_int_power)
    with b have "2 ^ 52 * b \<le> roundDouble y" by (simp add: ry)
    with pb have low: "pow2 (exponent y) \<le> roundDouble y" by simp
    have "exponent x + 1 = 53 + (exponent x - 52)" by simp
    then have "pow2 (exponent x + 1) = pow2 53 * a"
      unfolding a_def by (metis pow2_add)
    with pow2_nat [of 53] have pa: "pow2 (exponent x + 1) = 2 ^ 53 * a" by simp
    with exponent_bounds(1) [OF x x'] have "x / a \<le> of_int (2 ^ 53)"
      using a by (simp add: pos_divide_le_eq)
    then have "roundEven (x / a) \<le> roundEven (of_int (2 ^ 53))" by (rule roundEven_mono)
    then have "roundEven (x / a) \<le> 2 ^ 53" by (simp only: roundEven_int)
    then have "of_int (roundEven (x / a)) \<le> (2 ^ 53 :: rat)"
      by (metis of_int_le_iff of_int_numeral of_int_power)
    with a have "roundDouble x \<le> 2 ^ 53 * a" by (simp add: rx)
    with pa have "roundDouble x \<le> pow2 (exponent x + 1)" by simp
    also from less have "\<dots> \<le> pow2 (exponent y)" by (rule pow2_mono)
    finally show ?thesis using low by simp
  qed
qed

lemma roundDouble_le:
  assumes "0 \<le> x" and "x \<le> y" and "y \<le> 1024"
  shows "roundDouble x \<le> roundDouble y"
proof -
  have "(1024 :: rat) < 2 ^ 1024" by simp
  with assms(3) have "y < 2 ^ 1024" by (rule le_less_trans)
  with assms(1,2) show ?thesis by (rule roundDouble_mono)
qed

section \<open>Properties of the generator\<close>

lemma randomsOk_Cons [simp]:
  "randomsOk (u # rs) \<longleftrightarrow> 0 \<le> u \<and> u \<le> 1 - 1 / 2 ^ 53 \<and> randomsOk rs"
  by (simp add: randomsOk_def)

lemma randomsOk_Nil [simp]: "randomsOk []"
  by (simp add: randomsOk_def)

text \<open>
  The index drawn lies below \<open>n\<close>: at the largest double below \<open>1\<close> the product still rounds
  to a double below \<open>n\<close>, for every \<open>n\<close> up to the largest supported side.
\<close>

lemma randomIndex_top:
  "list_all (\<lambda>n. roundDouble ((1 - 1 / 2 ^ 53) * of_nat n) < of_nat n) [1..<17]"
  by code_simp

lemma randomIndex_less:
  assumes "0 \<le> u" and "u \<le> 1 - 1 / 2 ^ 53" and "0 < n" and "n \<le> 16"
  shows "randomIndex u n < n"
proof -
  from assms(3,4) have "n \<in> set [1..<17]" by simp
  with randomIndex_top have top: "roundDouble ((1 - 1 / 2 ^ 53) * of_nat n) < of_nat n"
    unfolding list_all_iff by blast
  have n: "(of_nat n :: rat) \<le> 16" using assms(4) by simp
  have "(1 - 1 / 2 ^ 53) * (of_nat n :: rat) \<le> 1 * of_nat n"
    by (intro mult_right_mono) simp_all
  with n have "(1 - 1 / 2 ^ 53) * (of_nat n :: rat) \<le> 1024" by simp
  moreover have "u * of_nat n \<le> (1 - 1 / 2 ^ 53) * of_nat n"
    using assms(2) by (intro mult_right_mono) simp_all
  moreover have "0 \<le> u * of_nat n" using assms(1) by simp
  ultimately have "roundDouble (u * of_nat n) \<le> roundDouble ((1 - 1 / 2 ^ 53) * of_nat n)"
    by (intro roundDouble_le)
  with top have "roundDouble (u * of_nat n) < of_nat n" by simp
  then have "\<lfloor>roundDouble (u * of_nat n)\<rfloor> < int n" by (simp add: floor_less_iff)
  then show ?thesis unfolding randomIndex_def using assms(3) by linarith
qed

text \<open>
  The number of cells to keep grows with the value drawn; its least and greatest values for
  the supported sides are those at \<open>0\<close> and at the largest double below \<open>1\<close>.
\<close>

lemma cellsToKeep_mono:
  assumes "0 \<le> u" and "u \<le> v" and "v \<le> 1 - 1 / 2 ^ 53" and "sz \<le> 16"
  shows "cellsToKeep sz u \<le> cellsToKeep sz v"
proof -
  define d02 where "d02 = roundDouble (2 / 10)"
  define d03 where "d03 = roundDouble (3 / 10)"
  define n2 :: rat where "n2 = of_nat (sz * sz)"
  have d02: "d02 = 3602879701896397 / 18014398509481984" unfolding d02_def by code_simp
  have d03: "d03 = 5404319552844595 / 18014398509481984" unfolding d03_def by code_simp
  have top2: "roundDouble ((1 - 1 / 2 ^ 53) * (3602879701896397 / 18014398509481984)) \<le> 1"
    by code_simp
  have top3: "roundDouble (5404319552844595 / 18014398509481984 + 1) \<le> 2" by code_simp
  have "sz * sz \<le> 16 * 16" using assms(4) by (intro mult_le_mono)
  then have "(of_nat (sz * sz) :: rat) \<le> of_nat (16 * 16)" by (simp only: of_nat_le_iff)
  then have n2: "0 \<le> n2" "n2 \<le> 256" unfolding n2_def by simp_all
  have v: "0 \<le> v" using assms(1,2) by simp
  have "v * d02 \<le> (1 - 1 / 2 ^ 53) * d02"
    using assms(3) by (intro mult_right_mono) (simp_all add: d02)
  moreover have "0 \<le> v * d02" using v by (simp add: d02)
  ultimately have "roundDouble (v * d02) \<le> roundDouble ((1 - 1 / 2 ^ 53) * d02)"
    by (intro roundDouble_le) (simp_all add: d02)
  with top2 have t2v: "roundDouble (v * d02) \<le> 1" by (simp add: d02)
  have "u * d02 \<le> v * d02" using assms(2) by (intro mult_right_mono) (simp_all add: d02)
  moreover have "0 \<le> u * d02" using assms(1) by (simp add: d02)
  moreover have "v * d02 \<le> 1024" using assms(3) v by (simp add: d02)
  ultimately have t2: "roundDouble (u * d02) \<le> roundDouble (v * d02)"
    by (intro roundDouble_le)
  have t2u: "0 \<le> roundDouble (u * d02)"
    using assms(1) by (intro roundDouble_nonneg) (simp add: d02)
  have "roundDouble (d03 + roundDouble (v * d02)) \<le> roundDouble (d03 + 1)"
    using t2v t2u t2 by (intro roundDouble_le) (simp_all add: d03)
  with top3 have t3v: "roundDouble (d03 + roundDouble (v * d02)) \<le> 2" by (simp add: d03)
  have t3: "roundDouble (d03 + roundDouble (u * d02)) \<le> roundDouble (d03 + roundDouble (v * d02))"
    using t2 t2u t2v by (intro roundDouble_le) (simp_all add: d03)
  have t3u: "0 \<le> roundDouble (d03 + roundDouble (u * d02))"
    using t2u by (intro roundDouble_nonneg) (simp add: d03)
  have "n2 * roundDouble (d03 + roundDouble (v * d02)) \<le> 256 * 2"
    using n2 t3v t3 t3u by (intro mult_mono) simp_all
  moreover have "n2 * roundDouble (d03 + roundDouble (u * d02))
      \<le> n2 * roundDouble (d03 + roundDouble (v * d02))"
    using t3 n2(1) by (rule mult_left_mono)
  moreover have "0 \<le> n2 * roundDouble (d03 + roundDouble (u * d02))"
    using n2(1) t3u by simp
  ultimately have "roundDouble (n2 * roundDouble (d03 + roundDouble (u * d02)))
      \<le> roundDouble (n2 * roundDouble (d03 + roundDouble (v * d02)))"
    by (intro roundDouble_le) simp_all
  then show ?thesis
    unfolding cellsToKeep_def d02_def [symmetric] d03_def [symmetric] n2_def [symmetric]
    by (rule floor_mono)
qed

lemma cellsToKeep_least:
  "cellsToKeep 4 0 = 4" "cellsToKeep 9 0 = 24" "cellsToKeep 16 0 = 76"
  by code_simp+

lemma cellsToKeep_greatest:
  "cellsToKeep 4 (1 - 1 / 2 ^ 53) = 8" "cellsToKeep 9 (1 - 1 / 2 ^ 53) = 40"
  "cellsToKeep 16 (1 - 1 / 2 ^ 53) = 128"
  by code_simp+

lemma cellsToKeep_bounds:
  assumes "0 \<le> u" and "u \<le> 1 - 1 / 2 ^ 53" and "sz \<le> 16"
  shows "cellsToKeep sz 0 \<le> cellsToKeep sz u"
    and "cellsToKeep sz u \<le> cellsToKeep sz (1 - 1 / 2 ^ 53)"
proof -
  show "cellsToKeep sz 0 \<le> cellsToKeep sz u"
    using assms by (intro cellsToKeep_mono) simp_all
  show "cellsToKeep sz u \<le> cellsToKeep sz (1 - 1 / 2 ^ 53)"
    using assms by (intro cellsToKeep_mono) simp_all
qed

lemma shuffle_perm:
  "shuffle i numbers rs = Some (numbers', rs') \<Longrightarrow> randomsOk rs \<Longrightarrow> i < length numbers \<Longrightarrow>
   length numbers \<le> 16 \<Longrightarrow>
     set numbers' = set numbers \<and> length numbers' = length numbers \<and>
     distinct numbers' = distinct numbers \<and> randomsOk rs'"
proof (induction i numbers rs rule: shuffle.induct)
  case (1 numbers rs)
  then show ?case by simp
next
  case (2 i' numbers)
  then show ?case by simp
next
  case (3 i' numbers u rs)
  define j where "j = randomIndex u (Suc i' + 1)"
  define swapped where "swapped = numbers[Suc i' := numbers ! j, j := numbers ! Suc i']"
  from 3(3) have u: "0 \<le> u" "u \<le> 1 - 1 / 2 ^ 53" and rs: "randomsOk rs" by simp_all
  from 3(4,5) have "Suc i' + 1 \<le> 16" by simp
  then have "j < Suc i' + 1" unfolding j_def by (intro randomIndex_less[OF u]) simp_all
  with 3(4) have j: "j < length numbers" by simp
  from 3(2) have res: "shuffle i' swapped rs = Some (numbers', rs')"
    by (simp add: Let_def j_def swapped_def)
  have sw: "set swapped = set numbers" "length swapped = length numbers"
    "distinct swapped = distinct numbers"
    unfolding swapped_def using 3(4) j by (simp_all add: set_swap distinct_swap)
  have "i' < length swapped" using 3(4) sw by simp
  moreover have "length swapped \<le> 16" using 3(5) sw by simp
  ultimately have "set numbers' = set swapped \<and> length numbers' = length swapped \<and>
      distinct numbers' = distinct swapped \<and> randomsOk rs'"
    unfolding swapped_def by (intro 3(1)[OF refl j_def res[unfolded swapped_def] rs])
  with sw show ?case by simp
qed

lemma writeBox_length [simp]: "length (writeBox g row col nums n ps) = length g"
  by (induction ps arbitrary: g n) auto

lemma writeBox_isBoard [simp]: "isBoard (writeBox g row col nums n ps) = isBoard g"
  by (induction ps arbitrary: g n) auto

lemma writeBox_other:
  "(\<forall>(i, j) \<in> set ps. (r, c) \<noteq> (row + i, col + j)) \<Longrightarrow>
     cellAt (writeBox g row col nums n ps) r c = cellAt g r c"
proof (induction ps arbitrary: g n)
  case Nil
  show ?case by simp
next
  case (Cons p ps)
  obtain i j where p: "p = (i, j)" by (cases p)
  from Cons.prems p have ne: "(r, c) \<noteq> (row + i, col + j)"
    and rest: "\<forall>(i, j) \<in> set ps. (r, c) \<noteq> (row + i, col + j)" by auto
  from Cons.IH[OF rest] ne show ?case
    by (auto simp: p cellAt_setCell)
qed

lemma writeBox_written:
  "distinct ps \<Longrightarrow> m < length ps \<Longrightarrow> ps ! m = (i, j) \<Longrightarrow>
   cellAt g (row + i) (col + j) \<noteq> None \<Longrightarrow>
     cellAt (writeBox g row col nums n ps) (row + i) (col + j) = Some (nums ! (n + m))"
proof (induction ps arbitrary: g n m)
  case Nil
  then show ?case by simp
next
  case (Cons p ps)
  obtain i' j' where p: "p = (i', j')" by (cases p)
  show ?case
  proof (cases m)
    case 0
    with Cons.prems p have same: "i' = i" "j' = j" by simp_all
    from Cons.prems(1) p same have "(i, j) \<notin> set ps" by simp
    then have "\<forall>(a, b) \<in> set ps. (row + i, col + j) \<noteq> (row + a, col + b)" by auto
    from writeBox_other[OF this] Cons.prems(4) 0 show ?thesis
      by (simp add: p same cellAt_setCell)
  next
    case (Suc m')
    with Cons.prems have "distinct ps" "m' < length ps" "ps ! m' = (i, j)" by simp_all
    moreover have "cellAt (setCell g (row + i') (col + j') (nums ! n)) (row + i) (col + j) \<noteq> None"
      using Cons.prems(4) by (simp add: cellAt_setCell)
    ultimately have "cellAt (writeBox (setCell g (row + i') (col + j') (nums ! n)) row col nums
        (Suc n) ps) (row + i) (col + j) = Some (nums ! (Suc n + m'))"
      by (rule Cons.IH)
    then show ?thesis by (simp add: p Suc)
  qed
qed

text \<open>Counting the filled cells.\<close>

lemma filled_row_update:
  "c < length row \<Longrightarrow>
     length (filter (\<lambda>x. x \<noteq> 0) (row[c := v])) + (if row ! c \<noteq> (0::int) then 1 else 0) =
     length (filter (\<lambda>x. x \<noteq> 0) row) + (if v \<noteq> 0 then 1 else 0)"
proof (induction row arbitrary: c)
  case Nil
  then show ?case by simp
next
  case (Cons x xs)
  show ?case
  proof (cases c)
    case 0
    then show ?thesis by simp
  next
    case (Suc c')
    with Cons.prems have "c' < length xs" by simp
    from Cons.IH[OF this] Suc show ?thesis by (auto split: if_splits)
  qed
qed

lemma filledCells_rows: "filledCells b = sum_list (map (\<lambda>row. length (filter (\<lambda>x. x \<noteq> 0) row)) b)"
  by (induction b) (simp_all add: filledCells_def)

lemma sum_list_update_nat:
  "i < length xs \<Longrightarrow> sum_list (xs[i := y]) + xs ! i = sum_list xs + (y::nat)"
proof (induction xs arbitrary: i)
  case Nil
  then show ?case by simp
next
  case (Cons x xs)
  then show ?case by (cases i) auto
qed

lemma filledCells_setCell:
  assumes "cellAt b r c = Some old"
  shows "filledCells (setCell b r c v) + (if old \<noteq> 0 then 1 else 0) =
         filledCells b + (if v \<noteq> 0 then 1 else 0)"
proof -
  from assms have r: "r < length b" and c: "c < length (b ! r)" and old: "b ! r ! c = old"
    by (auto simp: cellAt_def split: if_splits)
  let ?f = "\<lambda>row. length (filter (\<lambda>x. x \<noteq> (0::int)) row)"
  have "map ?f (setCell b r c v) = (map ?f b)[r := ?f ((b ! r)[c := v])]"
    by (simp add: setCell_def map_update)
  then have "filledCells (setCell b r c v) + ?f (b ! r) = filledCells b + ?f ((b ! r)[c := v])"
    using sum_list_update_nat[of r "map ?f b" "?f ((b ! r)[c := v])"] r
    by (simp add: filledCells_rows)
  with filled_row_update[OF c, of v] old show ?thesis by auto
qed

lemma filledCells_setCell_le: "filledCells (setCell b r c v) \<le> Suc (filledCells b)"
proof (cases "cellAt b r c")
  case None
  then show ?thesis by (simp add: setCell_out)
next
  case (Some old)
  from filledCells_setCell[OF this, of v] show ?thesis by (auto split: if_splits)
qed

lemma writeBox_filled: "filledCells (writeBox g row col nums n ps) \<le> filledCells g + length ps"
proof (induction ps arbitrary: g n)
  case Nil
  show ?case by simp
next
  case (Cons p ps)
  obtain i j where p: "p = (i, j)" by (cases p)
  have "filledCells (writeBox (setCell g (row + i) (col + j) (nums ! n)) row col nums (Suc n) ps)
      \<le> filledCells (setCell g (row + i) (col + j) (nums ! n)) + length ps"
    by (rule Cons.IH)
  also have "\<dots> \<le> Suc (filledCells g) + length ps"
    using filledCells_setCell_le[of g "row + i" "col + j" "nums ! n"] by simp
  finally show ?case by (simp add: p)
qed

lemma filledCells_full:
  assumes "isBoard b" and "firstEmpty b = None"
  shows "filledCells b = length b * length b"
proof -
  have nz: "x \<noteq> 0" if "x \<in> set (concat b)" for x
  proof -
    from that obtain row where "row \<in> set b" "x \<in> set row" by auto
    then obtain r c where rc: "r < length b" "c < length (b ! r)" "b ! r ! c = x"
      by (metis in_set_conv_nth)
    with assms(1) have "c < length b" by (simp add: isBoard_row)
    with assms(2) rc(1) have "cellAt b r c \<noteq> Some 0"
      by (simp add: firstEmpty_None_iff)
    with rc show ?thesis by (simp add: cellAt_def)
  qed
  then have "filter (\<lambda>cell. cell \<noteq> 0) (concat b) = concat b" by (simp add: filter_id_conv)
  moreover have "map length b = replicate (length b) (length b)"
    using assms(1) by (auto simp: isBoard_def list_all_iff map_replicate_const[symmetric])
  then have "length (concat b) = length b * length b"
    by (simp add: length_concat sum_list_replicate)
  ultimately show ?thesis by (simp add: filledCells_def)
qed

lemma div_mod_box:
  assumes "i < (k::nat)"
  shows "(d * k + i) div k = d" and "(d * k + i) mod k = i"
  using assms by simp_all

lemma product_upt_nth:
  assumes "i < k" and "j < k"
  shows "List.product [0..<k] [0..<k] ! (i * k + j) = (i, j)"
proof -
  have "i * k + j < k * k"
  proof -
    have "i * k + j < i * k + k" using assms(2) by simp
    also have "\<dots> = Suc i * k" by simp
    also have "\<dots> \<le> k * k" using assms(1) by (simp only: mult_le_mono1 Suc_leI)
    finally show ?thesis .
  qed
  then show ?thesis using assms by (simp add: product_nth)
qed

lemma product_upt_less:
  assumes "i < k" and "j < (k::nat)"
  shows "i * k + j < k * k"
proof -
  have "i * k + j < i * k + k" using assms(2) by simp
  also have "\<dots> = Suc i * k" by simp
  also have "\<dots> \<le> k * k" using assms(1) by (simp only: mult_le_mono1 Suc_leI)
  finally show ?thesis .
qed

text \<open>The cells of the board after a box has been written at \<open>(d * k, d * k)\<close>.\<close>

lemma writeBox_cells:
  assumes "isBoard g" and "length g = k * k" and "d < k" and "r < k * k" and "c < k * k"
  shows "writeBox g (d * k) (d * k) nums 0 (List.product [0..<k] [0..<k]) ! r ! c =
           (if r div k = d \<and> c div k = d then nums ! ((r mod k) * k + c mod k) else g ! r ! c)"
proof -
  let ?g' = "writeBox g (d * k) (d * k) nums 0 (List.product [0..<k] [0..<k])"
  from assms(3) have k: "0 < k" by simp
  have cell': "cellAt ?g' r c = Some (?g' ! r ! c)"
    using assms by (simp add: isBoard_cellAt)
  have cell: "cellAt g r c = Some (g ! r ! c)"
    using assms by (simp add: isBoard_cellAt)
  show ?thesis
  proof (cases "r div k = d \<and> c div k = d")
    case True
    define i where "i = r mod k"
    define j where "j = c mod k"
    have ij: "i < k" "j < k" using k by (simp_all add: i_def j_def)
    have r: "d * k + i = r" and c: "d * k + j = c"
      unfolding i_def j_def using True by (metis div_mult_mod_eq)+
    have "cellAt ?g' (d * k + i) (d * k + j) = Some (nums ! (0 + (i * k + j)))"
    proof (rule writeBox_written)
      show "distinct (List.product [0..<k] [0..<k])" by (simp add: distinct_product)
      show "i * k + j < length (List.product [0..<k] [0..<k])"
        using product_upt_less[OF ij] by simp
      show "List.product [0..<k] [0..<k] ! (i * k + j) = (i, j)" by (rule product_upt_nth[OF ij])
      show "cellAt g (d * k + i) (d * k + j) \<noteq> None" unfolding r c using cell by simp
    qed
    then have "cellAt ?g' r c = Some (nums ! (i * k + j))" unfolding r c by simp
    with cell' have "?g' ! r ! c = nums ! ((r mod k) * k + c mod k)"
      by (simp add: i_def j_def)
    with True show ?thesis by simp
  next
    case False
    have "\<forall>(i, j) \<in> set (List.product [0..<k] [0..<k]). (r, c) \<noteq> (d * k + i, d * k + j)"
    proof (clarsimp)
      fix i j assume "i < k" "j < k" "r = d * k + i" "c = d * k + j"
      with False show False by simp
    qed
    from writeBox_other[OF this] have "cellAt ?g' r c = cellAt g r c" .
    with cell cell' have "?g' ! r ! c = g ! r ! c" by simp
    then show ?thesis unfolding if_not_P[OF False] .
  qed
qed

lemma numbers_props:
  "distinct (map int [1..<Suc n])" "length (map int [1..<Suc n]) = n"
  "0 \<notin> set (map int [1..<Suc n])"
  by (auto simp: distinct_map inj_on_def)

lemma fillBox_step:
  assumes inv: "seedInv k d g" and d: "d < k" and rs: "randomsOk rs"
    and fb: "fillBox g (d * k) (d * k) (k * k) rs = Some (g', rs')" and small: "k * k \<le> 16"
  shows "seedInv k (Suc d) g' \<and> randomsOk rs'"
proof -
  from d have k: "0 < k" by simp
  from inv have wf: "isBoard g" and len: "length g = k * k" and nc: "\<not> hasConflict g"
    and diag: "diagOnly k d g" and cnt: "filledCells g \<le> d * (k * k)"
    by (simp_all add: seedInv_def)
  let ?numbers = "map int [1..<Suc (k * k)]"
  let ?ps = "List.product [0..<k] [0..<k]"
  have ln: "length ?numbers = k * k" by (simp del: upt_Suc)
  from fb have "(case shuffle (length ?numbers - 1) ?numbers rs of
      None \<Rightarrow> None
    | Some (numbers', rs'') \<Rightarrow> Some (writeBox g (d * k) (d * k) numbers' 0 ?ps, rs'')) =
      Some (g', rs')"
    by (simp only: fillBox_def Let_def boxSizeOf_square)
  then obtain nums where sh: "shuffle (k * k - 1) ?numbers rs = Some (nums, rs')"
    and g': "g' = writeBox g (d * k) (d * k) nums 0 ?ps"
    unfolding ln by (auto split: option.splits simp del: upt_Suc)
  have "k * k - 1 < length ?numbers" using k unfolding ln by simp
  moreover have "length ?numbers \<le> 16" using small unfolding ln .
  ultimately have "set nums = set ?numbers \<and> length nums = length ?numbers \<and>
      distinct nums = distinct ?numbers \<and> randomsOk rs'"
    by (rule shuffle_perm[OF sh rs])
  then
  have nums: "distinct nums" "length nums = k * k" "0 \<notin> set nums" and rs': "randomsOk rs'"
    using numbers_props[of "k * k"] by (simp_all del: upt_Suc)
  have wf': "isBoard g'" and len': "length g' = k * k" using wf len by (simp_all add: g')
  have cells: "g' ! r ! c =
      (if r div k = d \<and> c div k = d then nums ! ((r mod k) * k + c mod k) else g ! r ! c)"
    if "r < k * k" "c < k * k" for r c
    unfolding g' by (rule writeBox_cells[OF wf len d that])
  have idx: "(r mod k) * k + c mod k < k * k" for r c
    using product_upt_less[of "r mod k" k "c mod k"] k by simp
  have inbox_nz: "g' ! r ! c \<noteq> 0" if "r < k * k" "c < k * k" "r div k = d" "c div k = d" for r c
  proof -
    have "nums ! ((r mod k) * k + c mod k) \<in> set nums" using idx nums(2) by simp
    with nums(3) cells[OF that(1,2)] that(3,4) show ?thesis by auto
  qed
  have diag': "diagOnly k (Suc d) g'"
    unfolding diagOnly_def len'
  proof (intro allI impI)
    fix r c assume rc: "r < k * k" "c < k * k" and nz: "g' ! r ! c \<noteq> 0"
    show "r div k = c div k \<and> r div k < Suc d"
    proof (cases "r div k = d \<and> c div k = d")
      case True
      then show ?thesis by simp
    next
      case False
      with cells[OF rc] nz have "g ! r ! c \<noteq> 0" by simp
      with diag[unfolded diagOnly_def len] rc have "r div k = c div k \<and> r div k < d" by blast
      then show ?thesis by simp
    qed
  qed
  have nc': "\<not> hasConflict g'"
  proof
    assume "hasConflict g'"
    then have "\<exists>r1 c1 r2 c2. r1 < k * k \<and> c1 < k * k \<and> r2 < k * k \<and> c2 < k * k \<and>
        (r1, c1) \<noteq> (r2, c2) \<and> g' ! r1 ! c1 \<noteq> 0 \<and> g' ! r1 ! c1 = g' ! r2 ! c2 \<and>
        sameUnit k (r1, c1) (r2, c2)"
      unfolding hasConflict_iff len' boxSizeOf_square .
    then obtain r1 c1 r2 c2 where rc: "r1 < k * k" "c1 < k * k" "r2 < k * k" "c2 < k * k"
      and ne: "(r1, c1) \<noteq> (r2, c2)"
      and v: "g' ! r1 ! c1 \<noteq> 0" "g' ! r1 ! c1 = g' ! r2 ! c2"
      and u: "sameUnit k (r1, c1) (r2, c2)"
      by blast
    let ?in1 = "r1 div k = d \<and> c1 div k = d"
    let ?in2 = "r2 div k = d \<and> c2 div k = d"
    have outside: "r div k = c div k \<and> r div k < d"
      if "r < k * k" "c < k * k" "\<not> (r div k = d \<and> c div k = d)" "g' ! r ! c \<noteq> 0" for r c
    proof -
      from cells[OF that(1,2)] that(3,4) have "g ! r ! c \<noteq> 0" by simp
      with diag[unfolded diagOnly_def len] that(1,2) show ?thesis by blast
    qed
    show False
    proof (cases ?in1)
      case in1: True
      show ?thesis
      proof (cases ?in2)
        case in2: True
        let ?m1 = "(r1 mod k) * k + c1 mod k"
        let ?m2 = "(r2 mod k) * k + c2 mod k"
        from cells[OF rc(1,2)] cells[OF rc(3,4)] in1 in2 v(2)
        have "nums ! ?m1 = nums ! ?m2" by simp
        with nums(1,2) idx[of r1 c1] idx[of r2 c2] have m: "?m1 = ?m2"
          by (simp add: nth_eq_iff_index_eq)
        have "?m1 div k = r1 mod k" "?m2 div k = r2 mod k" "?m1 mod k = c1 mod k"
          "?m2 mod k = c2 mod k" using k by simp_all
        with m have "r1 mod k = r2 mod k" "c1 mod k = c2 mod k" by (metis)+
        with in1 in2 have "r1 = r2" "c1 = c2"
          by (metis div_mult_mod_eq)+
        with ne show False by simp
      next
        case out2: False
        from v have "g' ! r2 ! c2 \<noteq> 0" by simp
        from outside[OF rc(3,4) out2 this] have o: "r2 div k = c2 div k" "r2 div k < d" by simp_all
        from u in1 o show False by (auto simp: sameUnit_def)
      qed
    next
      case out1: False
      from outside[OF rc(1,2) out1 v(1)] have o: "r1 div k = c1 div k" "r1 div k < d" by simp_all
      show ?thesis
      proof (cases ?in2)
        case in2: True
        from u in2 o show False by (auto simp: sameUnit_def)
      next
        case out2: False
        from cells[OF rc(1,2)] cells[OF rc(3,4)] out1 out2 v
        have "g ! r1 ! c1 \<noteq> 0" "g ! r1 ! c1 = g ! r2 ! c2" by simp_all
        with rc ne u nc show False unfolding hasConflict_iff len boxSizeOf_square by blast
      qed
    qed
  qed
  have "filledCells g' \<le> filledCells g + length ?ps" unfolding g' by (rule writeBox_filled)
  also have "\<dots> \<le> d * (k * k) + k * k" using cnt by simp
  finally have cnt': "filledCells g' \<le> Suc d * (k * k)" by simp
  from wf' len' nc' diag' cnt' rs' show ?thesis by (simp add: seedInv_def)
qed

lemma seedDiagonal_inv:
  "seedDiagonal g i sz rs = Some (g', rs') \<Longrightarrow> sz = k * k \<Longrightarrow> i = d * k \<Longrightarrow> d \<le> k \<Longrightarrow>
   seedInv k d g \<Longrightarrow> randomsOk rs \<Longrightarrow> sz \<le> 16 \<Longrightarrow> seedInv k k g' \<and> randomsOk rs'"
proof (induction g i sz rs arbitrary: d rule: seedDiagonal.induct)
  case (1 g i sz rs)
  note sz = \<open>sz = k * k\<close> and i = \<open>i = d * k\<close>
  show ?case
  proof (cases "i < sz")
    case True
    with sz i have dk: "d < k" by simp
    from True 1(2) obtain g1 rs1 where fb: "fillBox g i i sz rs = Some (g1, rs1)"
      and rest: "seedDiagonal g1 (i + boxSizeOf sz) sz rs1 = Some (g', rs')"
      by (auto simp: seedDiagonal.simps[of g i sz rs] split: option.splits)
    from \<open>sz \<le> 16\<close> sz have small: "k * k \<le> 16" by simp
    from fillBox_step[OF \<open>seedInv k d g\<close> dk \<open>randomsOk rs\<close> fb[unfolded sz i] small]
    have inv1: "seedInv k (Suc d) g1" and rs1: "randomsOk rs1" by simp_all
    have next_i: "i + boxSizeOf sz = Suc d * k" by (simp add: sz i)
    from 1(1)[OF True fb refl rest sz next_i _ inv1 rs1 \<open>sz \<le> 16\<close>] dk show ?thesis by simp
  next
    case False
    with 1(2) have same: "g' = g" "rs' = rs" by (simp_all add: seedDiagonal.simps[of g i sz rs])
    from False sz i have "\<not> d < k \<or> k = 0" by auto
    with \<open>d \<le> k\<close> have "d = k" by auto
    with same 1(6,7) show ?thesis by simp
  qed
qed

lemma empty_grid_inv: "seedInv k 0 (replicate (k * k) (replicate (k * k) 0))"
proof -
  let ?g = "replicate (k * k) (replicate (k * k) (0::int))"
  have cell: "?g ! r ! c = 0" if "r < k * k" "c < k * k" for r c using that by simp
  have "isBoard ?g" by (simp add: isBoard_def list_all_length)
  moreover have "\<not> hasConflict ?g" unfolding hasConflict_iff using cell by auto
  moreover have "diagOnly k 0 ?g" unfolding diagOnly_def using cell by auto
  moreover have "filledCells ?g = 0"
    by (auto simp: filledCells_def filter_empty_conv)
  ultimately show ?thesis by (simp add: seedInv_def)
qed

lemma pickCell_picked:
  "pickCell g sz rs = Some (row, col, rs') \<Longrightarrow> randomsOk rs \<Longrightarrow> 0 < sz \<Longrightarrow> sz \<le> 16 \<Longrightarrow>
     row < sz \<and> col < sz \<and> cellAt g row col \<noteq> Some 0 \<and> randomsOk rs'"
proof (induction g sz rs rule: pickCell.induct)
  case (1 g sz u1 u2 rs)
  from 1(3) have u: "0 \<le> u1" "u1 \<le> 1 - 1 / 2 ^ 53" "0 \<le> u2" "u2 \<le> 1 - 1 / 2 ^ 53"
    and rs: "randomsOk rs" by simp_all
  show ?case
  proof (cases "cellAt g (randomIndex u1 sz) (randomIndex u2 sz) = Some 0")
    case True
    with 1(2) have "pickCell g sz rs = Some (row, col, rs')" by (simp add: Let_def)
    from 1(1)[OF refl refl True this rs 1(4,5)] show ?thesis .
  next
    case False
    with 1(2) have "row = randomIndex u1 sz" "col = randomIndex u2 sz" "rs' = rs"
      by (simp_all add: Let_def)
    with False rs randomIndex_less[OF u(1,2) 1(4,5)] randomIndex_less[OF u(3,4) 1(4,5)]
    show ?thesis by simp
  qed
qed simp_all

lemma removeCells_count:
  "removeCells n g sz rs = Some g' \<Longrightarrow> isBoard g \<Longrightarrow> length g = sz \<Longrightarrow> 0 < sz \<Longrightarrow>
   randomsOk rs \<Longrightarrow> sz \<le> 16 \<Longrightarrow>
     filledCells g' + n = filledCells g \<and> isBoard g' \<and> length g' = sz \<and>
     (\<not> hasConflict g \<longrightarrow> \<not> hasConflict g')"
proof (induction n arbitrary: g rs)
  case 0
  then show ?case by simp
next
  case (Suc n)
  from Suc.prems(1) obtain row col rs1 where pc: "pickCell g sz rs = Some (row, col, rs1)"
    and rest: "removeCells n (setCell g row col 0) sz rs1 = Some g'"
    by (auto split: option.splits)
  from pickCell_picked[OF pc Suc.prems(5,4,6)]
  have rc: "row < sz" "col < sz" and nz: "cellAt g row col \<noteq> Some 0" and rs1: "randomsOk rs1"
    by simp_all
  from rc Suc.prems(2,3) have cell: "cellAt g row col = Some (g ! row ! col)"
    by (simp add: isBoard_cellAt)
  with nz have "g ! row ! col \<noteq> 0" by simp
  with filledCells_setCell[OF cell, of 0]
  have one: "Suc (filledCells (setCell g row col 0)) = filledCells g" by simp
  from Suc.IH[OF rest _ _ Suc.prems(4) rs1 Suc.prems(6)] Suc.prems(2,3)
  have ih: "filledCells g' + n = filledCells (setCell g row col 0)" "isBoard g'" "length g' = sz"
    "\<not> hasConflict (setCell g row col 0) \<longrightarrow> \<not> hasConflict g'" by simp_all
  from ih one hasConflict_clear[OF Suc.prems(2), of row col] show ?case by auto
qed

text \<open>The board the generator removes cells from.\<close>

lemma generate_before_removal:
  assumes "seedDiagonal (replicate (k * k) (replicate (k * k) 0)) 0 (k * k) rs = Some (seeded, rs1)"
    and "randomsOk rs" and "k * k \<le> 16"
  shows "isBoard (grid (solveSudoku seeded))" and "length (grid (solveSudoku seeded)) = k * k"
    and "\<not> hasConflict (grid (solveSudoku seeded))" and "randomsOk rs1"
    and "solved (solveSudoku seeded) \<Longrightarrow> filledCells (grid (solveSudoku seeded)) = k * k * (k * k)"
    and "\<not> solved (solveSudoku seeded) \<Longrightarrow> filledCells (grid (solveSudoku seeded)) \<le> k * (k * k)"
proof -
  from seedDiagonal_inv[OF assms(1) refl _ _ empty_grid_inv assms(2,3)]
  have inv: "seedInv k k seeded" and rs1: "randomsOk rs1" by simp_all
  then have wf: "isBoard seeded" and len: "length seeded = k * k" and nc: "\<not> hasConflict seeded"
    and cnt: "filledCells seeded \<le> k * (k * k)" by (simp_all add: seedInv_def)
  obtain ok b' s' where r: "solve seeded 0 = (ok, b', s')" by (cases "solve seeded 0") auto
  then have res: "solved (solveSudoku seeded) = ok" "grid (solveSudoku seeded) = b'"
    by (simp_all add: solveSudoku_def)
  from solve_valid(1)[OF r wf nc] have wf': "isBoard b'" and nc': "\<not> hasConflict b'" by simp_all
  from solve_frame(1)[OF r] have fr: "\<not> ok \<longrightarrow> b' = seeded" "ok \<longrightarrow> firstEmpty b' = None"
    by simp_all
  have len': "length b' = k * k"
    using solve_length(1)[OF r] len by simp
  show "isBoard (grid (solveSudoku seeded))" using wf' res by simp
  show "length (grid (solveSudoku seeded)) = k * k" using len' res by simp
  show "\<not> hasConflict (grid (solveSudoku seeded))" using nc' res by simp
  show "randomsOk rs1" by (rule rs1)
  show "filledCells (grid (solveSudoku seeded)) = k * k * (k * k)" if "solved (solveSudoku seeded)"
    using that res fr filledCells_full[OF wf'] len' by simp
  show "filledCells (grid (solveSudoku seeded)) \<le> k * (k * k)" if "\<not> solved (solveSudoku seeded)"
    using that res fr cnt by simp
qed

lemma generatePuzzle_SomeD:
  assumes "generatePuzzle sz rs = Some g"
  obtains seeded u rs2 where
    "seedDiagonal (replicate sz (replicate sz 0)) 0 sz rs = Some (seeded, u # rs2)"
    "removeCells (nat (int (sz * sz) - cellsToKeep sz u)) (grid (solveSudoku seeded)) sz rs2 =
       Some g"
proof (cases "seedDiagonal (replicate sz (replicate sz 0)) 0 sz rs")
  case None
  with assms show ?thesis by (simp add: generatePuzzle_def)
next
  case (Some p)
  obtain seeded rs1 where p: "p = (seeded, rs1)" by (cases p)
  show ?thesis
  proof (cases rs1)
    case Nil
    with assms Some p show ?thesis by (simp add: generatePuzzle_def)
  next
    case (Cons u rs2)
    with assms Some p
    have "removeCells (nat (int (sz * sz) - cellsToKeep sz u)) (grid (solveSudoku seeded)) sz rs2 =
        Some g"
      by (simp add: generatePuzzle_def Let_def)
    with Some p Cons show ?thesis by (intro that[of seeded u rs2]) simp_all
  qed
qed

lemma generatePuzzle_result:
  assumes "sz = k * k" and "0 < k" and "sz \<le> 16" and "randomsOk rs"
    and "generatePuzzle sz rs = Some g"
  obtains seeded u rs2 where
    "seedDiagonal (replicate sz (replicate sz 0)) 0 sz rs = Some (seeded, u # rs2)"
    "0 \<le> u" "u \<le> 1 - 1 / 2 ^ 53"
    "filledCells g + nat (int (sz * sz) - cellsToKeep sz u) =
       filledCells (grid (solveSudoku seeded))"
    "isBoard g" "\<not> hasConflict g"
proof -
  from assms(5) obtain seeded u rs2 where
    sd: "seedDiagonal (replicate sz (replicate sz 0)) 0 sz rs = Some (seeded, u # rs2)"
    and rm: "removeCells (nat (int (sz * sz) - cellsToKeep sz u)) (grid (solveSudoku seeded))
       sz rs2 = Some g"
    by (rule generatePuzzle_SomeD)
  from assms(1,3) have small: "k * k \<le> 16" by simp
  note before = generate_before_removal[OF sd[unfolded assms(1)] assms(4) small]
  from before(4) have u: "0 \<le> u" "u \<le> 1 - 1 / 2 ^ 53" and rs2: "randomsOk rs2" by simp_all
  have pos: "0 < sz" using assms(1,2) by simp
  have len: "length (grid (solveSudoku seeded)) = sz" using before(2) assms(1) by simp
  from removeCells_count[OF rm before(1) len pos rs2 assms(3)] before(3)
  have res: "filledCells g + nat (int (sz * sz) - cellsToKeep sz u) =
      filledCells (grid (solveSudoku seeded))" "isBoard g" "\<not> hasConflict g" by simp_all
  show ?thesis by (rule that[OF sd u res])
qed

lemma zero_board_valid:
  "isValidSudoku (replicate n (replicate n 0)) = Some (True, replicate n (replicate n 0))"
proof -
  let ?b = "replicate n (replicate n (0::int))"
  have cell: "cellAt ?b r c = Some 0" if "r < n" "c < n" for r c
    using that by (simp add: cellAt_def)
  then have inside: "\<forall>(r, c) \<in> set (List.product [0..<length ?b] [0..<length ?b]).
      cellAt ?b r c \<noteq> None" by auto
  have "\<forall>r<n. \<forall>c<n. cellOk ?b r c" using cell by (simp add: cellOk_def)
  then show ?thesis
    unfolding isValidSudoku_def validScan_eq[OF inside] by (simp add: list_all_product_upt)
qed

lemma shuffle_append:
  "shuffle i numbers rs = Some (numbers', rs') \<Longrightarrow>
     shuffle i numbers (rs @ extra) = Some (numbers', rs' @ extra)"
proof (induction i numbers rs rule: shuffle.induct)
  case (1 numbers rs)
  then show ?case by simp
next
  case (2 i' numbers)
  then show ?case by simp
next
  case (3 i' numbers u rs)
  from 3(2) have "shuffle i' (numbers[Suc i' := numbers ! randomIndex u (Suc i' + 1),
      randomIndex u (Suc i' + 1) := numbers ! Suc i']) rs = Some (numbers', rs')"
    by (simp add: Let_def)
  from 3(1)[OF refl refl this] show ?case by (simp add: Let_def)
qed

lemma fillBox_append:
  "fillBox g row col sz rs = Some (g', rs') \<Longrightarrow>
     fillBox g row col sz (rs @ extra) = Some (g', rs' @ extra)"
proof -
  assume fb: "fillBox g row col sz rs = Some (g', rs')"
  let ?numbers = "map int [1..<Suc sz]"
  from fb obtain nums where sh: "shuffle (length ?numbers - 1) ?numbers rs = Some (nums, rs')"
    and g': "g' = writeBox g row col nums 0
      (List.product [0..<boxSizeOf sz] [0..<boxSizeOf sz])"
    unfolding fillBox_def Let_def by (auto split: option.splits simp del: upt_Suc)
  from shuffle_append[OF sh, of extra] g' show ?thesis
    unfolding fillBox_def Let_def by (simp del: upt_Suc)
qed

lemma seedDiagonal_append:
  "seedDiagonal g i sz rs = Some (g', rs') \<Longrightarrow>
     seedDiagonal g i sz (rs @ extra) = Some (g', rs' @ extra)"
proof (induction g i sz rs rule: seedDiagonal.induct)
  case (1 g i sz rs)
  show ?case
  proof (cases "i < sz")
    case True
    with 1(2) obtain g1 rs1 where fb: "fillBox g i i sz rs = Some (g1, rs1)"
      and rest: "seedDiagonal g1 (i + boxSizeOf sz) sz rs1 = Some (g', rs')"
      by (auto simp: seedDiagonal.simps[of g i sz rs] split: option.splits)
    from 1(1)[OF True fb refl rest] fillBox_append[OF fb, of extra] True show ?thesis
      by (simp add: seedDiagonal.simps[of g i sz "rs @ extra"])
  next
    case False
    with 1(2) have same: "g' = g" "rs' = rs"
      by (simp_all add: seedDiagonal.simps[of g i sz rs])
    from False show ?thesis
      unfolding same by (simp add: seedDiagonal.simps[of g i sz "rs @ extra"])
  qed
qed

text \<open>The supported sides, and the number of cells kept for each of them.\<close>

lemma supported_side:
  assumes "sz \<in> {4, 9, 16 :: nat}"
  obtains k where "sz = k * k" and "2 \<le> k" and "sz \<le> 16"
proof -
  from assms consider "sz = 2 * 2" | "sz = 3 * 3" | "sz = 4 * 4" by auto
  then show ?thesis
  proof cases
    case 1
    then show ?thesis by (intro that[of 2]) simp_all
  next
    case 2
    then show ?thesis by (intro that[of 3]) simp_all
  next
    case 3
    then show ?thesis by (intro that[of 4]) simp_all
  qed
qed

lemma cellsToKeep_range:
  assumes "sz \<in> {4, 9, 16 :: nat}" and "0 \<le> u" and "u \<le> 1 - 1 / 2 ^ 53"
  shows "\<lfloor>of_nat (sz * sz) * (3 / 10 :: real)\<rfloor> \<le> cellsToKeep sz u"
    and "2 * cellsToKeep sz u \<le> int (sz * sz)"
    and "sz = 9 \<Longrightarrow> 24 \<le> cellsToKeep sz u \<and> cellsToKeep sz u \<le> 40"
proof -
  from assms(1) have small: "sz \<le> 16" by auto
  note b = cellsToKeep_bounds[OF assms(2,3) small]
  have f4: "\<lfloor>of_nat (4 * 4) * (3 / 10 :: real)\<rfloor> = 4"
    and f9: "\<lfloor>of_nat (9 * 9) * (3 / 10 :: real)\<rfloor> = 24"
    and f16: "\<lfloor>of_nat (16 * 16) * (3 / 10 :: real)\<rfloor> = 76"
    by (simp_all add: floor_eq_iff)
  from assms(1) consider "sz = 4" | "sz = 9" | "sz = 16" by auto
  then have "\<lfloor>of_nat (sz * sz) * (3 / 10 :: real)\<rfloor> \<le> cellsToKeep sz u \<and>
      2 * cellsToKeep sz u \<le> int (sz * sz) \<and>
      (sz = 9 \<longrightarrow> 24 \<le> cellsToKeep sz u \<and> cellsToKeep sz u \<le> 40)"
  proof cases
    case 1
    with b cellsToKeep_least(1) cellsToKeep_greatest(1) f4 show ?thesis by simp
  next
    case 2
    with b cellsToKeep_least(2) cellsToKeep_greatest(2) f9 show ?thesis by simp
  next
    case 3
    with b cellsToKeep_least(3) cellsToKeep_greatest(3) f16 show ?thesis by simp
  qed
  then show "\<lfloor>of_nat (sz * sz) * (3 / 10 :: real)\<rfloor> \<le> cellsToKeep sz u"
    and "2 * cellsToKeep sz u \<le> int (sz * sz)"
    and "sz = 9 \<Longrightarrow> 24 \<le> cellsToKeep sz u \<and> cellsToKeep sz u \<le> 40"
    by simp_all
qed

text \<open>
  The number of filled cells of a returned board. When the solver has completed the seeded
  board, exactly \<^verbatim>\<open>cellsToKeep\<close> cells stay filled. When it has not, the grid holds the seeded
  cells only, and the removal loop can end only if it has no more cells to clear than those:
  for side \<open>4\<close> with \<^verbatim>\<open>cellsToKeep\<close> equal to \<open>8\<close>, and then no filled cell is left.
\<close>

lemma generatePuzzle_count:
  assumes "sz \<in> {4, 9, 16}" and "randomsOk rs" and "generatePuzzle sz rs = Some g"
    and "seedDiagonal (replicate sz (replicate sz 0)) 0 sz rs = Some (seeded, u # rs2)"
  shows "solved (solveSudoku seeded) \<Longrightarrow> int (filledCells g) = cellsToKeep sz u"
    and "\<not> solved (solveSudoku seeded) \<Longrightarrow> sz = 4 \<and> cellsToKeep sz u = 8 \<and> filledCells g = 0"
    and "0 \<le> u" and "u \<le> 1 - 1 / 2 ^ 53"
proof -
  from assms(1) obtain k where sz: "sz = k * k" and k2: "2 \<le> k" and small: "sz \<le> 16"
    by (rule supported_side)
  from k2 have k: "0 < k" by simp
  from sz k small assms(2,3)
  obtain seeded' u' rs2' where
    sd: "seedDiagonal (replicate sz (replicate sz 0)) 0 sz rs = Some (seeded', u' # rs2')"
    and u': "0 \<le> u'" "u' \<le> 1 - 1 / 2 ^ 53"
    and cnt': "filledCells g + nat (int (sz * sz) - cellsToKeep sz u') =
       filledCells (grid (solveSudoku seeded'))"
    by (rule generatePuzzle_result)
  from sd assms(4) have same: "seeded' = seeded" "u' = u" by simp_all
  from u' same show u: "0 \<le> u" "u \<le> 1 - 1 / 2 ^ 53" by simp_all
  from cnt' same have cnt: "filledCells g + nat (int (sz * sz) - cellsToKeep sz u) =
       filledCells (grid (solveSudoku seeded))" by simp
  note range = cellsToKeep_range[OF assms(1) u]
  have "(0 :: real) \<le> of_nat (sz * sz) * (3 / 10)" by simp
  then have "0 \<le> \<lfloor>of_nat (sz * sz) * (3 / 10 :: real)\<rfloor>" by simp
  from this range(1) have keep0: "0 \<le> cellsToKeep sz u" by (rule order_trans)
  from range(2) have m: "int (nat (int (sz * sz) - cellsToKeep sz u)) =
      int (sz * sz) - cellsToKeep sz u" using keep0 by simp
  from small sz have small': "k * k \<le> 16" by simp
  note before = generate_before_removal[OF assms(4)[unfolded sz] assms(2) small']
  show "int (filledCells g) = cellsToKeep sz u" if "solved (solveSudoku seeded)"
  proof -
    from before(5)[OF that] cnt
    have "filledCells g + nat (int (sz * sz) - cellsToKeep sz u) = sz * sz" by (simp add: sz)
    then have "int (filledCells g) + int (nat (int (sz * sz) - cellsToKeep sz u)) = int (sz * sz)"
      by linarith
    with m show ?thesis by linarith
  qed
  show "sz = 4 \<and> cellsToKeep sz u = 8 \<and> filledCells g = 0" if "\<not> solved (solveSudoku seeded)"
  proof -
    from before(6)[OF that] cnt
    have "filledCells g + nat (int (sz * sz) - cellsToKeep sz u) \<le> k * (k * k)" by simp
    then have "int (filledCells g) + int (nat (int (sz * sz) - cellsToKeep sz u))
        \<le> int (k * (k * k))" by linarith
    with m have le: "int (filledCells g) + int (sz * sz) - cellsToKeep sz u \<le> int (k * (k * k))"
      by linarith
    from assms(1) consider "sz = 4" | "sz = 9" | "sz = 16" by auto
    then show ?thesis
    proof cases
      case 1
      with sz have "k * k = 2 * 2" by simp
      then have "k = 2" by (simp only: power2_eq_square[symmetric] power2_eq_iff_nonneg)
      with le range(2) 1 show ?thesis by simp
    next
      case 2
      with sz have "k * k = 3 * 3" by simp
      then have "k = 3" by (simp only: power2_eq_square[symmetric] power2_eq_iff_nonneg)
      with le range(2) 2 show ?thesis by simp
    next
      case 3
      with sz have "k * k = 4 * 4" by simp
      then have "k = 4" by (simp only: power2_eq_square[symmetric] power2_eq_iff_nonneg)
      with le range(2) 3 show ?thesis by simp
    qed
  qed
qed

text \<open>The removal loop ends when every pair of values drawn hits a cell that is still filled.\<close>

lemma removeCells_hits:
  "list_all2 (\<lambda>(r, c) (u1, u2). randomIndex u1 sz = r \<and> randomIndex u2 sz = c) ps us \<Longrightarrow>
   distinct ps \<Longrightarrow> \<forall>(r, c) \<in> set ps. cellAt g r c \<noteq> Some 0 \<Longrightarrow>
     removeCells (length ps) g sz (concat (map (\<lambda>(u1, u2). [u1, u2]) us)) \<noteq> None"
proof (induction ps us arbitrary: g rule: list_all2_induct)
  case Nil
  show ?case by simp
next
  case (Cons p ps u us)
  obtain r c where p: "p = (r, c)" by (cases p)
  obtain u1 u2 where u: "u = (u1, u2)" by (cases u)
  from Cons.hyps(1) p u have idx: "randomIndex u1 sz = r" "randomIndex u2 sz = c" by simp_all
  from Cons.prems(2) p have filled: "cellAt g r c \<noteq> Some 0" by simp
  have pick: "pickCell g sz (u1 # u2 # concat (map (\<lambda>(u1, u2). [u1, u2]) us)) =
      Some (r, c, concat (map (\<lambda>(u1, u2). [u1, u2]) us))"
    using idx filled by (simp add: Let_def)
  have "\<forall>(r', c') \<in> set ps. cellAt (setCell g r c 0) r' c' \<noteq> Some 0"
  proof (clarify)
    fix r' c' assume in_ps: "(r', c') \<in> set ps" and z: "cellAt (setCell g r c 0) r' c' = Some 0"
    from Cons.prems(1) p in_ps have "(r', c') \<noteq> (r, c)" by auto
    with z have "cellAt g r' c' = Some 0" by (auto simp: cellAt_setCell split: if_splits)
    with Cons.prems(2) in_ps show False by auto
  qed
  moreover from Cons.prems(1) have "distinct ps" by simp
  ultimately have "removeCells (length ps) (setCell g r c 0) sz
      (concat (map (\<lambda>(u1, u2). [u1, u2]) us)) \<noteq> None"
    by (intro Cons.IH)
  with pick show ?case by (simp add: p u)
qed

text \<open>
  A run of the generator for side \<open>4\<close>: both shuffles leave \<open>1 2 / 3 4\<close>, the value drawn for
  \<^verbatim>\<open>cellsToKeep\<close> is the largest double below \<open>1\<close>, and the removal loop draws the eight cells
  of the rows \<open>0\<close> and \<open>1\<close>.
\<close>

lemma generatePuzzle_4_run:
  "randomsOk
     [3 / 4, 3 / 4, 1 / 2, 3 / 4, 3 / 4, 1 / 2, 1 - 1 / 2 ^ 53, 0, 0, 0, 1 / 4, 0, 1 / 2, 0,
      3 / 4, 1 / 4, 0, 1 / 4, 1 / 4, 1 / 4, 1 / 2, 1 / 4, 3 / 4]"
  "seedDiagonal (replicate 4 (replicate 4 0)) 0 4
     [3 / 4, 3 / 4, 1 / 2, 3 / 4, 3 / 4, 1 / 2, 1 - 1 / 2 ^ 53, 0, 0, 0, 1 / 4, 0, 1 / 2, 0,
      3 / 4, 1 / 4, 0, 1 / 4, 1 / 4, 1 / 4, 1 / 2, 1 / 4, 3 / 4] =
     Some ([[1, 2, 0, 0], [3, 4, 0, 0], [0, 0, 1, 2], [0, 0, 3, 4]],
       (1 - 1 / 2 ^ 53) #
       [0, 0, 0, 1 / 4, 0, 1 / 2, 0, 3 / 4, 1 / 4, 0, 1 / 4, 1 / 4, 1 / 4, 1 / 2, 1 / 4, 3 / 4])"
  "solved (solveSudoku [[1, 2, 0, 0], [3, 4, 0, 0], [0, 0, 1, 2], [0, 0, 3, 4]])"
  "generatePuzzle 4
     [3 / 4, 3 / 4, 1 / 2, 3 / 4, 3 / 4, 1 / 2, 1 - 1 / 2 ^ 53, 0, 0, 0, 1 / 4, 0, 1 / 2, 0,
      3 / 4, 1 / 4, 0, 1 / 4, 1 / 4, 1 / 4, 1 / 2, 1 / 4, 3 / 4] =
     Some [[0, 0, 0, 0], [0, 0, 0, 0], [4, 3, 1, 2], [2, 1, 3, 4]]"
  by code_simp+

text \<open>
  A run of the generator for side \<open>9\<close>: the shuffles leave the boxes \<open>1 2 3 / 4 5 6 / 7 8 9\<close>,
  \<open>4 5 6 / 7 8 9 / 1 2 3\<close> and \<open>7 8 9 / 1 2 3 / 4 5 6\<close>, the value drawn for \<^verbatim>\<open>cellsToKeep\<close> is
  \<open>63 / 64\<close>, and the removal loop draws the first \<open>41\<close> cells of the board, row by row.
\<close>

lemma generatePuzzle_9_run:
  "randomsOk
     [15 / 16, 7 / 8, 7 / 8, 7 / 8, 7 / 8, 3 / 4, 3 / 4, 1 / 2,
      1 / 4, 1 / 8, 0, 3 / 8, 1 / 4, 0, 3 / 4, 1 / 2,
      5 / 8, 1 / 2, 1 / 2, 3 / 8, 1 / 4, 0, 3 / 4, 1 / 2,
      63 / 64,
      0, 0, 0, 1 / 8, 0, 1 / 4, 0, 3 / 8, 0, 1 / 2, 0, 5 / 8, 0, 3 / 4, 0, 7 / 8, 0, 15 / 16,
      1 / 8, 0, 1 / 8, 1 / 8, 1 / 8, 1 / 4, 1 / 8, 3 / 8, 1 / 8, 1 / 2, 1 / 8, 5 / 8, 1 / 8, 3 / 4,
      1 / 8, 7 / 8, 1 / 8, 15 / 16,
      1 / 4, 0, 1 / 4, 1 / 8, 1 / 4, 1 / 4, 1 / 4, 3 / 8, 1 / 4, 1 / 2, 1 / 4, 5 / 8, 1 / 4, 3 / 4,
      1 / 4, 7 / 8, 1 / 4, 15 / 16,
      3 / 8, 0, 3 / 8, 1 / 8, 3 / 8, 1 / 4, 3 / 8, 3 / 8, 3 / 8, 1 / 2, 3 / 8, 5 / 8, 3 / 8, 3 / 4,
      3 / 8, 7 / 8, 3 / 8, 15 / 16,
      1 / 2, 0, 1 / 2, 1 / 8, 1 / 2, 1 / 4, 1 / 2, 3 / 8, 1 / 2, 1 / 2]"
  "seedDiagonal (replicate 9 (replicate 9 0)) 0 9
     [15 / 16, 7 / 8, 7 / 8, 7 / 8, 7 / 8, 3 / 4, 3 / 4, 1 / 2,
      1 / 4, 1 / 8, 0, 3 / 8, 1 / 4, 0, 3 / 4, 1 / 2,
      5 / 8, 1 / 2, 1 / 2, 3 / 8, 1 / 4, 0, 3 / 4, 1 / 2,
      63 / 64,
      0, 0, 0, 1 / 8, 0, 1 / 4, 0, 3 / 8, 0, 1 / 2, 0, 5 / 8, 0, 3 / 4, 0, 7 / 8, 0, 15 / 16,
      1 / 8, 0, 1 / 8, 1 / 8, 1 / 8, 1 / 4, 1 / 8, 3 / 8, 1 / 8, 1 / 2, 1 / 8, 5 / 8, 1 / 8, 3 / 4,
      1 / 8, 7 / 8, 1 / 8, 15 / 16,
      1 / 4, 0, 1 / 4, 1 / 8, 1 / 4, 1 / 4, 1 / 4, 3 / 8, 1 / 4, 1 / 2, 1 / 4, 5 / 8, 1 / 4, 3 / 4,
      1 / 4, 7 / 8, 1 / 4, 15 / 16,
      3 / 8, 0, 3 / 8, 1 / 8, 3 / 8, 1 / 4, 3 / 8, 3 / 8, 3 / 8, 1 / 2, 3 / 8, 5 / 8, 3 / 8, 3 / 4,
      3 / 8, 7 / 8, 3 / 8, 15 / 16,
      1 / 2, 0, 1 / 2, 1 / 8, 1 / 2, 1 / 4, 1 / 2, 3 / 8, 1 / 2, 1 / 2] =
     Some ([[1, 2, 3, 0, 0, 0, 0, 0, 0], [4, 5, 6, 0, 0, 0, 0, 0, 0], [7, 8, 9, 0, 0, 0, 0, 0, 0],
            [0, 0, 0, 4, 5, 6, 0, 0, 0], [0, 0, 0, 7, 8, 9, 0, 0, 0], [0, 0, 0, 1, 2, 3, 0, 0, 0],
            [0, 0, 0, 0, 0, 0, 7, 8, 9], [0, 0, 0, 0, 0, 0, 1, 2, 3], [0, 0, 0, 0, 0, 0, 4, 5, 6]],
       63 / 64 #
       [0, 0, 0, 1 / 8, 0, 1 / 4, 0, 3 / 8, 0, 1 / 2, 0, 5 / 8, 0, 3 / 4, 0, 7 / 8, 0, 15 / 16,
        1 / 8, 0, 1 / 8, 1 / 8, 1 / 8, 1 / 4, 1 / 8, 3 / 8, 1 / 8, 1 / 2, 1 / 8, 5 / 8, 1 / 8, 3 / 4,
        1 / 8, 7 / 8, 1 / 8, 15 / 16,
        1 / 4, 0, 1 / 4, 1 / 8, 1 / 4, 1 / 4, 1 / 4, 3 / 8, 1 / 4, 1 / 2, 1 / 4, 5 / 8, 1 / 4, 3 / 4,
        1 / 4, 7 / 8, 1 / 4, 15 / 16,
        3 / 8, 0, 3 / 8, 1 / 8, 3 / 8, 1 / 4, 3 / 8, 3 / 8, 3 / 8, 1 / 2, 3 / 8, 5 / 8, 3 / 8, 3 / 4,
        3 / 8, 7 / 8, 3 / 8, 15 / 16,
        1 / 2, 0, 1 / 2, 1 / 8, 1 / 2, 1 / 4, 1 / 2, 3 / 8, 1 / 2, 1 / 2])"
  "generatePuzzle 9
     [15 / 16, 7 / 8, 7 / 8, 7 / 8, 7 / 8, 3 / 4, 3 / 4, 1 / 2,
      1 / 4, 1 / 8, 0, 3 / 8, 1 / 4, 0, 3 / 4, 1 / 2,
      5 / 8, 1 / 2, 1 / 2, 3 / 8, 1 / 4, 0, 3 / 4, 1 / 2,
      63 / 64,
      0, 0, 0, 1 / 8, 0, 1 / 4, 0, 3 / 8, 0, 1 / 2, 0, 5 / 8, 0, 3 / 4, 0, 7 / 8, 0, 15 / 16,
      1 / 8, 0, 1 / 8, 1 / 8, 1 / 8, 1 / 4, 1 / 8, 3 / 8, 1 / 8, 1 / 2, 1 / 8, 5 / 8, 1 / 8, 3 / 4,
      1 / 8, 7 / 8, 1 / 8, 15 / 16,
      1 / 4, 0, 1 / 4, 1 / 8, 1 / 4, 1 / 4, 1 / 4, 3 / 8, 1 / 4, 1 / 2, 1 / 4, 5 / 8, 1 / 4, 3 / 4,
      1 / 4, 7 / 8, 1 / 4, 15 / 16,
      3 / 8, 0, 3 / 8, 1 / 8, 3 / 8, 1 / 4, 3 / 8, 3 / 8, 3 / 8, 1 / 2, 3 / 8, 5 / 8, 3 / 8, 3 / 4,
      3 / 8, 7 / 8, 3 / 8, 15 / 16,
      1 / 2, 0, 1 / 2, 1 / 8, 1 / 2, 1 / 4, 1 / 2, 3 / 8, 1 / 2, 1 / 2] =
     Some [[0, 0, 0, 0, 0, 0, 0, 0, 0], [0, 0, 0, 0, 0, 0, 0, 0, 0], [0, 0, 0, 0, 0, 0, 0, 0, 0],
           [0, 0, 0, 0, 0, 0, 0, 0, 0], [0, 0, 0, 0, 0, 9, 5, 3, 2], [5, 9, 7, 1, 2, 3, 8, 6, 4],
           [3, 4, 2, 6, 1, 5, 7, 8, 9], [8, 6, 5, 9, 7, 4, 1, 2, 3], [9, 7, 1, 8, 3, 2, 4, 5, 6]]"
  by code_simp+

text \<open>
  A run of the generator for side \<open>16\<close>: the shuffles leave \<open>1 .. 16\<close> in every diagonal box, the
  value drawn for \<^verbatim>\<open>cellsToKeep\<close> is the largest double below \<open>1\<close>, and the removal loop draws
  the \<open>128\<close> cells of the rows \<open>0\<close> to \<open>7\<close>. The seeded board has a completion, so the solver
  fills the grid and the generator returns.
\<close>

lemma randomIndex_sixteenths: "list_all (\<lambda>i. randomIndex (of_nat i / 16) 16 = i) [0..<16]"
  by code_simp

lemma generatePuzzle_16_seed:
  "seedDiagonal (replicate 16 (replicate 16 0)) 0 16 (replicate 60 (15 / 16)) =
     Some ([[1, 2, 3, 4, 0, 0, 0, 0, 0, 0, 0, 0, 0, 0, 0, 0],
        [5, 6, 7, 8, 0, 0, 0, 0, 0, 0, 0, 0, 0, 0, 0, 0],
        [9, 10, 11, 12, 0, 0, 0, 0, 0, 0, 0, 0, 0, 0, 0, 0],
        [13, 14, 15, 16, 0, 0, 0, 0, 0, 0, 0, 0, 0, 0, 0, 0],
        [0, 0, 0, 0, 1, 2, 3, 4, 0, 0, 0, 0, 0, 0, 0, 0],
        [0, 0, 0, 0, 5, 6, 7, 8, 0, 0, 0, 0, 0, 0, 0, 0],
        [0, 0, 0, 0, 9, 10, 11, 12, 0, 0, 0, 0, 0, 0, 0, 0],
        [0, 0, 0, 0, 13, 14, 15, 16, 0, 0, 0, 0, 0, 0, 0, 0],
        [0, 0, 0, 0, 0, 0, 0, 0, 1, 2, 3, 4, 0, 0, 0, 0],
        [0, 0, 0, 0, 0, 0, 0, 0, 5, 6, 7, 8, 0, 0, 0, 0],
        [0, 0, 0, 0, 0, 0, 0, 0, 9, 10, 11, 12, 0, 0, 0, 0],
        [0, 0, 0, 0, 0, 0, 0, 0, 13, 14, 15, 16, 0, 0, 0, 0],
        [0, 0, 0, 0, 0, 0, 0, 0, 0, 0, 0, 0, 1, 2, 3, 4],
        [0, 0, 0, 0, 0, 0, 0, 0, 0, 0, 0, 0, 5, 6, 7, 8],
        [0, 0, 0, 0, 0, 0, 0, 0, 0, 0, 0, 0, 9, 10, 11, 12],
        [0, 0, 0, 0, 0, 0, 0, 0, 0, 0, 0, 0, 13, 14, 15, 16]], [])"
  by code_simp

lemma generatePuzzle_16_completion:
  "completes
       [[1, 2, 3, 4, 6, 5, 8, 7, 10, 9, 12, 11, 14, 13, 16, 15],
        [5, 6, 7, 8, 2, 1, 4, 3, 14, 13, 16, 15, 10, 9, 12, 11],
        [9, 10, 11, 12, 14, 13, 16, 15, 2, 1, 4, 3, 6, 5, 8, 7],
        [13, 14, 15, 16, 10, 9, 12, 11, 6, 5, 8, 7, 2, 1, 4, 3],
        [6, 5, 8, 7, 1, 2, 3, 4, 11, 12, 9, 10, 15, 16, 13, 14],
        [2, 1, 4, 3, 5, 6, 7, 8, 15, 16, 13, 14, 11, 12, 9, 10],
        [14, 13, 16, 15, 9, 10, 11, 12, 3, 4, 1, 2, 7, 8, 5, 6],
        [10, 9, 12, 11, 13, 14, 15, 16, 7, 8, 5, 6, 3, 4, 1, 2],
        [7, 8, 5, 6, 11, 12, 9, 10, 1, 2, 3, 4, 16, 15, 14, 13],
        [3, 4, 1, 2, 15, 16, 13, 14, 5, 6, 7, 8, 12, 11, 10, 9],
        [15, 16, 13, 14, 3, 4, 1, 2, 9, 10, 11, 12, 8, 7, 6, 5],
        [11, 12, 9, 10, 7, 8, 5, 6, 13, 14, 15, 16, 4, 3, 2, 1],
        [8, 7, 6, 5, 12, 11, 10, 9, 16, 15, 14, 13, 1, 2, 3, 4],
        [4, 3, 2, 1, 16, 15, 14, 13, 12, 11, 10, 9, 5, 6, 7, 8],
        [16, 15, 14, 13, 4, 3, 2, 1, 8, 7, 6, 5, 9, 10, 11, 12],
        [12, 11, 10, 9, 8, 7, 6, 5, 4, 3, 2, 1, 13, 14, 15, 16]]
       [[1, 2, 3, 4, 0, 0, 0, 0, 0, 0, 0, 0, 0, 0, 0, 0],
        [5, 6, 7, 8, 0, 0, 0, 0, 0, 0, 0, 0, 0, 0, 0, 0],
        [9, 10, 11, 12, 0, 0, 0, 0, 0, 0, 0, 0, 0, 0, 0, 0],
        [13, 14, 15, 16, 0, 0, 0, 0, 0, 0, 0, 0, 0, 0, 0, 0],
        [0, 0, 0, 0, 1, 2, 3, 4, 0, 0, 0, 0, 0, 0, 0, 0],
        [0, 0, 0, 0, 5, 6, 7, 8, 0, 0, 0, 0, 0, 0, 0, 0],
        [0, 0, 0, 0, 9, 10, 11, 12, 0, 0, 0, 0, 0, 0, 0, 0],
        [0, 0, 0, 0, 13, 14, 15, 16, 0, 0, 0, 0, 0, 0, 0, 0],
        [0, 0, 0, 0, 0, 0, 0, 0, 1, 2, 3, 4, 0, 0, 0, 0],
        [0, 0, 0, 0, 0, 0, 0, 0, 5, 6, 7, 8, 0, 0, 0, 0],
        [0, 0, 0, 0, 0, 0, 0, 0, 9, 10, 11, 12, 0, 0, 0, 0],
        [0, 0, 0, 0, 0, 0, 0, 0, 13, 14, 15, 16, 0, 0, 0, 0],
        [0, 0, 0, 0, 0, 0, 0, 0, 0, 0, 0, 0, 1, 2, 3, 4],
        [0, 0, 0, 0, 0, 0, 0, 0, 0, 0, 0, 0, 5, 6, 7, 8],
        [0, 0, 0, 0, 0, 0, 0, 0, 0, 0, 0, 0, 9, 10, 11, 12],
        [0, 0, 0, 0, 0, 0, 0, 0, 0, 0, 0, 0, 13, 14, 15, 16]]"
proof (rule completes_nth)
  let ?b = "[[1, 2, 3, 4, 0, 0, 0, 0, 0, 0, 0, 0, 0, 0, 0, 0],
        [5, 6, 7, 8, 0, 0, 0, 0, 0, 0, 0, 0, 0, 0, 0, 0],
        [9, 10, 11, 12, 0, 0, 0, 0, 0, 0, 0, 0, 0, 0, 0, 0],
        [13, 14, 15, 16, 0, 0, 0, 0, 0, 0, 0, 0, 0, 0, 0, 0],
        [0, 0, 0, 0, 1, 2, 3, 4, 0, 0, 0, 0, 0, 0, 0, 0],
        [0, 0, 0, 0, 5, 6, 7, 8, 0, 0, 0, 0, 0, 0, 0, 0],
        [0, 0, 0, 0, 9, 10, 11, 12, 0, 0, 0, 0, 0, 0, 0, 0],
        [0, 0, 0, 0, 13, 14, 15, 16, 0, 0, 0, 0, 0, 0, 0, 0],
        [0, 0, 0, 0, 0, 0, 0, 0, 1, 2, 3, 4, 0, 0, 0, 0],
        [0, 0, 0, 0, 0, 0, 0, 0, 5, 6, 7, 8, 0, 0, 0, 0],
        [0, 0, 0, 0, 0, 0, 0, 0, 9, 10, 11, 12, 0, 0, 0, 0],
        [0, 0, 0, 0, 0, 0, 0, 0, 13, 14, 15, 16, 0, 0, 0, 0],
        [0, 0, 0, 0, 0, 0, 0, 0, 0, 0, 0, 0, 1, 2, 3, 4],
        [0, 0, 0, 0, 0, 0, 0, 0, 0, 0, 0, 0, 5, 6, 7, 8],
        [0, 0, 0, 0, 0, 0, 0, 0, 0, 0, 0, 0, 9, 10, 11, 12],
        [0, 0, 0, 0, 0, 0, 0, 0, 0, 0, 0, 0, 13, 14, 15, 16]] :: board"
  let ?f = "[[1, 2, 3, 4, 6, 5, 8, 7, 10, 9, 12, 11, 14, 13, 16, 15],
        [5, 6, 7, 8, 2, 1, 4, 3, 14, 13, 16, 15, 10, 9, 12, 11],
        [9, 10, 11, 12, 14, 13, 16, 15, 2, 1, 4, 3, 6, 5, 8, 7],
        [13, 14, 15, 16, 10, 9, 12, 11, 6, 5, 8, 7, 2, 1, 4, 3],
        [6, 5, 8, 7, 1, 2, 3, 4, 11, 12, 9, 10, 15, 16, 13, 14],
        [2, 1, 4, 3, 5, 6, 7, 8, 15, 16, 13, 14, 11, 12, 9, 10],
        [14, 13, 16, 15, 9, 10, 11, 12, 3, 4, 1, 2, 7, 8, 5, 6],
        [10, 9, 12, 11, 13, 14, 15, 16, 7, 8, 5, 6, 3, 4, 1, 2],
        [7, 8, 5, 6, 11, 12, 9, 10, 1, 2, 3, 4, 16, 15, 14, 13],
        [3, 4, 1, 2, 15, 16, 13, 14, 5, 6, 7, 8, 12, 11, 10, 9],
        [15, 16, 13, 14, 3, 4, 1, 2, 9, 10, 11, 12, 8, 7, 6, 5],
        [11, 12, 9, 10, 7, 8, 5, 6, 13, 14, 15, 16, 4, 3, 2, 1],
        [8, 7, 6, 5, 12, 11, 10, 9, 16, 15, 14, 13, 1, 2, 3, 4],
        [4, 3, 2, 1, 16, 15, 14, 13, 12, 11, 10, 9, 5, 6, 7, 8],
        [16, 15, 14, 13, 4, 3, 2, 1, 8, 7, 6, 5, 9, 10, 11, 12],
        [12, 11, 10, 9, 8, 7, 6, 5, 4, 3, 2, 1, 13, 14, 15, 16]] :: board"
  show "isBoard ?b" by code_simp
  show "isBoard ?f" by code_simp
  show "length ?f = length ?b" by simp
  show "isValidSudoku ?f = Some (True, ?f)" by code_simp
  show "list_all (\<lambda>(r, c). ?b ! r ! c = 0 \<or> cellAt ?f r c = Some (?b ! r ! c))
           (List.product [0..<length ?b] [0..<length ?b])" by code_simp
  show "list_all (list_all (\<lambda>v. 1 \<le> v \<and> v \<le> int (length ?f))) ?f" by code_simp
qed

lemma generatePuzzle_16_run:
  "randomsOk
     (replicate 60 (15 / 16) @ (1 - 1 / 2 ^ 53) #
      concat (map (\<lambda>(r, c). [of_nat r / 16, of_nat c / 16]) (List.product [0..<8] [0..<16])))"
  "seedDiagonal (replicate 16 (replicate 16 0)) 0 16
     (replicate 60 (15 / 16) @ (1 - 1 / 2 ^ 53) #
      concat (map (\<lambda>(r, c). [of_nat r / 16, of_nat c / 16]) (List.product [0..<8] [0..<16]))) =
     Some ([[1, 2, 3, 4, 0, 0, 0, 0, 0, 0, 0, 0, 0, 0, 0, 0],
        [5, 6, 7, 8, 0, 0, 0, 0, 0, 0, 0, 0, 0, 0, 0, 0],
        [9, 10, 11, 12, 0, 0, 0, 0, 0, 0, 0, 0, 0, 0, 0, 0],
        [13, 14, 15, 16, 0, 0, 0, 0, 0, 0, 0, 0, 0, 0, 0, 0],
        [0, 0, 0, 0, 1, 2, 3, 4, 0, 0, 0, 0, 0, 0, 0, 0],
        [0, 0, 0, 0, 5, 6, 7, 8, 0, 0, 0, 0, 0, 0, 0, 0],
        [0, 0, 0, 0, 9, 10, 11, 12, 0, 0, 0, 0, 0, 0, 0, 0],
        [0, 0, 0, 0, 13, 14, 15, 16, 0, 0, 0, 0, 0, 0, 0, 0],
        [0, 0, 0, 0, 0, 0, 0, 0, 1, 2, 3, 4, 0, 0, 0, 0],
        [0, 0, 0, 0, 0, 0, 0, 0, 5, 6, 7, 8, 0, 0, 0, 0],
        [0, 0, 0, 0, 0, 0, 0, 0, 9, 10, 11, 12, 0, 0, 0, 0],
        [0, 0, 0, 0, 0, 0, 0, 0, 13, 14, 15, 16, 0, 0, 0, 0],
        [0, 0, 0, 0, 0, 0, 0, 0, 0, 0, 0, 0, 1, 2, 3, 4],
        [0, 0, 0, 0, 0, 0, 0, 0, 0, 0, 0, 0, 5, 6, 7, 8],
        [0, 0, 0, 0, 0, 0, 0, 0, 0, 0, 0, 0, 9, 10, 11, 12],
        [0, 0, 0, 0, 0, 0, 0, 0, 0, 0, 0, 0, 13, 14, 15, 16]],
       (1 - 1 / 2 ^ 53) #
       concat (map (\<lambda>(r, c). [of_nat r / 16, of_nat c / 16]) (List.product [0..<8] [0..<16])))"
  "\<exists>g. generatePuzzle 16
     (replicate 60 (15 / 16) @ (1 - 1 / 2 ^ 53) #
      concat (map (\<lambda>(r, c). [of_nat r / 16, of_nat c / 16]) (List.product [0..<8] [0..<16]))) =
     Some g"
proof -
  let ?seeded = "[[1, 2, 3, 4, 0, 0, 0, 0, 0, 0, 0, 0, 0, 0, 0, 0],
        [5, 6, 7, 8, 0, 0, 0, 0, 0, 0, 0, 0, 0, 0, 0, 0],
        [9, 10, 11, 12, 0, 0, 0, 0, 0, 0, 0, 0, 0, 0, 0, 0],
        [13, 14, 15, 16, 0, 0, 0, 0, 0, 0, 0, 0, 0, 0, 0, 0],
        [0, 0, 0, 0, 1, 2, 3, 4, 0, 0, 0, 0, 0, 0, 0, 0],
        [0, 0, 0, 0, 5, 6, 7, 8, 0, 0, 0, 0, 0, 0, 0, 0],
        [0, 0, 0, 0, 9, 10, 11, 12, 0, 0, 0, 0, 0, 0, 0, 0],
        [0, 0, 0, 0, 13, 14, 15, 16, 0, 0, 0, 0, 0, 0, 0, 0],
        [0, 0, 0, 0, 0, 0, 0, 0, 1, 2, 3, 4, 0, 0, 0, 0],
        [0, 0, 0, 0, 0, 0, 0, 0, 5, 6, 7, 8, 0, 0, 0, 0],
        [0, 0, 0, 0, 0, 0, 0, 0, 9, 10, 11, 12, 0, 0, 0, 0],
        [0, 0, 0, 0, 0, 0, 0, 0, 13, 14, 15, 16, 0, 0, 0, 0],
        [0, 0, 0, 0, 0, 0, 0, 0, 0, 0, 0, 0, 1, 2, 3, 4],
        [0, 0, 0, 0, 0, 0, 0, 0, 0, 0, 0, 0, 5, 6, 7, 8],
        [0, 0, 0, 0, 0, 0, 0, 0, 0, 0, 0, 0, 9, 10, 11, 12],
        [0, 0, 0, 0, 0, 0, 0, 0, 0, 0, 0, 0, 13, 14, 15, 16]] :: board"
  let ?ps = "List.product [0..<8] [0..<16] :: (nat \<times> nat) list"
  let ?us = "map (\<lambda>(r, c). (of_nat r / 16, of_nat c / 16)) ?ps :: (rat \<times> rat) list"
  let ?picks = "concat (map (\<lambda>(r, c). [of_nat r / 16, of_nat c / 16]) ?ps) :: rat list"
  let ?rs = "replicate 60 (15 / 16) @ (1 - 1 / 2 ^ 53) # ?picks"
  let ?g = "grid (solveSudoku ?seeded)"
  have picks: "concat (map (\<lambda>(u1, u2). [u1, u2]) ?us) = ?picks"
    by (simp only: map_map comp_def case_prod_unfold fst_conv snd_conv)
  show ok: "randomsOk ?rs" by code_simp
  from seedDiagonal_append[OF generatePuzzle_16_seed, of "(1 - 1 / 2 ^ 53) # ?picks"]
  show sd: "seedDiagonal (replicate 16 (replicate 16 0)) 0 16 ?rs =
      Some (?seeded, (1 - 1 / 2 ^ 53) # ?picks)" by simp
  have wf: "isBoard ?seeded" by code_simp
  note full = solveSudoku_complete(2)[OF wf generatePuzzle_16_completion]
  obtain ok' b' s' where r: "solve ?seeded 0 = (ok', b', s')" by (cases "solve ?seeded 0") auto
  from solve_length(1)[OF r] r have len: "length ?g = 16" by (simp add: solveSudoku_def)
  have idx: "randomIndex (of_nat i / 16) 16 = i" if "i < 16" for i
    using randomIndex_sixteenths that unfolding list_all_iff by simp
  have "list_all2 (\<lambda>(r, c) (u1, u2). randomIndex u1 16 = r \<and> randomIndex u2 16 = c) ?ps ?us"
    unfolding list_all2_map2 list_all2_same using idx by auto
  moreover have "distinct ?ps" by (simp add: distinct_product)
  moreover have "\<forall>(r, c) \<in> set ?ps. cellAt ?g r c \<noteq> Some 0"
    using full[unfolded firstEmpty_None_iff len] by auto
  ultimately have "removeCells (length ?ps) ?g 16 (concat (map (\<lambda>(u1, u2). [u1, u2]) ?us)) \<noteq> None"
    by (rule removeCells_hits)
  then have "removeCells 128 ?g 16 ?picks \<noteq> None" unfolding picks by simp
  then obtain g where "removeCells 128 ?g 16 ?picks = Some g" by blast
  with sd cellsToKeep_greatest(3) have "generatePuzzle 16 ?rs = Some g"
    by (simp add: generatePuzzle_def Let_def)
  then show "\<exists>g. generatePuzzle 16 ?rs = Some g" by blast
qed

text \<open>For every supported side the generator returns a board for some values of the source.\<close>

lemma generatePuzzle_returns:
  assumes "sz \<in> {4, 9, 16}"
  shows "\<exists>rs g. randomsOk rs \<and> generatePuzzle sz rs = Some g"
proof -
  from assms consider "sz = 4" | "sz = 9" | "sz = 16" by auto
  then show ?thesis
  proof cases
    case 1
    with generatePuzzle_4_run(1,4) show ?thesis by blast
  next
    case 2
    with generatePuzzle_9_run(1,3) show ?thesis by blast
  next
    case 3
    with generatePuzzle_16_run(1,3) show ?thesis by blast
  qed
qed

lemma generatePuzzle_returns_solved:
  assumes "sz \<in> {9, 16}" and "randomsOk rs" and "generatePuzzle sz rs = Some g"
    and "seedDiagonal (replicate sz (replicate sz 0)) 0 sz rs = Some (seeded, rs1)"
  shows "solved (solveSudoku seeded)"
proof (rule ccontr)
  assume unsolved: "\<not> solved (solveSudoku seeded)"
  from assms(3) obtain seeded' u rs2 where
    "seedDiagonal (replicate sz (replicate sz 0)) 0 sz rs = Some (seeded', u # rs2)"
    by (rule generatePuzzle_SomeD)
  with assms(4) have sd: "seedDiagonal (replicate sz (replicate sz 0)) 0 sz rs =
      Some (seeded, u # rs2)" by simp
  from assms(1) have "sz \<in> {4, 9, 16}" by auto
  from generatePuzzle_count(2)[OF this assms(2,3) sd unsolved] assms(1) show False by auto
qed

text \<open>
  C6. The validator answers \<open>False\<close> on every board of the data model that holds two equal
  non-zero values in one row, one column or one box; it answers \<open>True\<close> on the all-zero board
  of any side; and it answers \<open>True\<close> on every board the generator returns for a supported
  side, whatever the random source yields.
\<close>

theorem isValidSudoku_verdicts:
  "(isBoard board \<and> hasConflict board \<longrightarrow> isValidSudoku board = Some (False, board)) \<and>
   isValidSudoku (replicate n (replicate n 0)) = Some (True, replicate n (replicate n 0)) \<and>
   (sz \<in> {4, 9, 16} \<and> randomsOk rs \<and> generatePuzzle sz rs = Some g \<longrightarrow>
      isValidSudoku g = Some (True, g))"
proof (intro conjI impI)
  assume "isBoard board \<and> hasConflict board"
  then show "isValidSudoku board = Some (False, board)" by (simp add: isValidSudoku_eq)
next
  show "isValidSudoku (replicate n (replicate n 0)) = Some (True, replicate n (replicate n 0))"
    by (rule zero_board_valid)
next
  assume h: "sz \<in> {4, 9, 16} \<and> randomsOk rs \<and> generatePuzzle sz rs = Some g"
  then have side: "sz \<in> {4, 9, 16}" and ok: "randomsOk rs"
    and gen: "generatePuzzle sz rs = Some g" by blast+
  from side obtain k where "sz = k * k" and "2 \<le> k" and "sz \<le> 16" by (rule supported_side)
  then have "sz = k * k" and "0 < k" and "sz \<le> 16" by simp_all
  from this ok gen have "isBoard g \<and> \<not> hasConflict g" by (rule generatePuzzle_result) simp
  then show "isValidSudoku g = Some (True, g)" by (simp add: isValidSudoku_eq)
qed

theorem isValidSudoku_verdicts_witness:
  "isValidSudoku [[1, 1, 0, 0], [0, 0, 0, 0], [0, 0, 0, 0], [0, 0, 0, 0]] =
     Some (False, [[1, 1, 0, 0], [0, 0, 0, 0], [0, 0, 0, 0], [0, 0, 0, 0]]) \<and>
   isValidSudoku (replicate 4 (replicate 4 0)) = Some (True, replicate 4 (replicate 4 0)) \<and>
   generatePuzzle 4
     [3 / 4, 3 / 4, 1 / 2, 3 / 4, 3 / 4, 1 / 2, 1 - 1 / 2 ^ 53, 0, 0, 0, 1 / 4, 0, 1 / 2, 0,
      3 / 4, 1 / 4, 0, 1 / 4, 1 / 4, 1 / 4, 1 / 2, 1 / 4, 3 / 4] =
     Some [[0, 0, 0, 0], [0, 0, 0, 0], [4, 3, 1, 2], [2, 1, 3, 4]] \<and>
   isValidSudoku [[0, 0, 0, 0], [0, 0, 0, 0], [4, 3, 1, 2], [2, 1, 3, 4]] =
     Some (True, [[0, 0, 0, 0], [0, 0, 0, 0], [4, 3, 1, 2], [2, 1, 3, 4]]) \<and>
   generatePuzzle 9
     [15 / 16, 7 / 8, 7 / 8, 7 / 8, 7 / 8, 3 / 4, 3 / 4, 1 / 2,
      1 / 4, 1 / 8, 0, 3 / 8, 1 / 4, 0, 3 / 4, 1 / 2,
      5 / 8, 1 / 2, 1 / 2, 3 / 8, 1 / 4, 0, 3 / 4, 1 / 2,
      63 / 64,
      0, 0, 0, 1 / 8, 0, 1 / 4, 0, 3 / 8, 0, 1 / 2, 0, 5 / 8, 0, 3 / 4, 0, 7 / 8, 0, 15 / 16,
      1 / 8, 0, 1 / 8, 1 / 8, 1 / 8, 1 / 4, 1 / 8, 3 / 8, 1 / 8, 1 / 2, 1 / 8, 5 / 8, 1 / 8, 3 / 4,
      1 / 8, 7 / 8, 1 / 8, 15 / 16,
      1 / 4, 0, 1 / 4, 1 / 8, 1 / 4, 1 / 4, 1 / 4, 3 / 8, 1 / 4, 1 / 2, 1 / 4, 5 / 8, 1 / 4, 3 / 4,
      1 / 4, 7 / 8, 1 / 4, 15 / 16,
      3 / 8, 0, 3 / 8, 1 / 8, 3 / 8, 1 / 4, 3 / 8, 3 / 8, 3 / 8, 1 / 2, 3 / 8, 5 / 8, 3 / 8, 3 / 4,
      3 / 8, 7 / 8, 3 / 8, 15 / 16,
      1 / 2, 0, 1 / 2, 1 / 8, 1 / 2, 1 / 4, 1 / 2, 3 / 8, 1 / 2, 1 / 2] =
     Some [[0, 0, 0, 0, 0, 0, 0, 0, 0], [0, 0, 0, 0, 0, 0, 0, 0, 0], [0, 0, 0, 0, 0, 0, 0, 0, 0],
           [0, 0, 0, 0, 0, 0, 0, 0, 0], [0, 0, 0, 0, 0, 9, 5, 3, 2], [5, 9, 7, 1, 2, 3, 8, 6, 4],
           [3, 4, 2, 6, 1, 5, 7, 8, 9], [8, 6, 5, 9, 7, 4, 1, 2, 3], [9, 7, 1, 8, 3, 2, 4, 5, 6]] \<and>
   isValidSudoku
       [[0, 0, 0, 0, 0, 0, 0, 0, 0], [0, 0, 0, 0, 0, 0, 0, 0, 0], [0, 0, 0, 0, 0, 0, 0, 0, 0],
           [0, 0, 0, 0, 0, 0, 0, 0, 0], [0, 0, 0, 0, 0, 9, 5, 3, 2], [5, 9, 7, 1, 2, 3, 8, 6, 4],
           [3, 4, 2, 6, 1, 5, 7, 8, 9], [8, 6, 5, 9, 7, 4, 1, 2, 3], [9, 7, 1, 8, 3, 2, 4, 5, 6]] =
     Some (True,
       [[0, 0, 0, 0, 0, 0, 0, 0, 0], [0, 0, 0, 0, 0, 0, 0, 0, 0], [0, 0, 0, 0, 0, 0, 0, 0, 0],
           [0, 0, 0, 0, 0, 0, 0, 0, 0], [0, 0, 0, 0, 0, 9, 5, 3, 2], [5, 9, 7, 1, 2, 3, 8, 6, 4],
           [3, 4, 2, 6, 1, 5, 7, 8, 9], [8, 6, 5, 9, 7, 4, 1, 2, 3], [9, 7, 1, 8, 3, 2, 4, 5, 6]]) \<and>
   (\<exists>g. generatePuzzle 16
      (replicate 60 (15 / 16) @ (1 - 1 / 2 ^ 53) #
      concat (map (\<lambda>(r, c). [of_nat r / 16, of_nat c / 16]) (List.product [0..<8] [0..<16]))) =
      Some g \<and> isValidSudoku g = Some (True, g))"
proof -
  let ?b = "[[1, 1, 0, 0], [0, 0, 0, 0], [0, 0, 0, 0], [0, 0, 0, 0]] :: board"
  let ?rs = "[3 / 4, 3 / 4, 1 / 2, 3 / 4, 3 / 4, 1 / 2, 1 - 1 / 2 ^ 53, 0, 0, 0, 1 / 4, 0, 1 / 2, 0,
      3 / 4, 1 / 4, 0, 1 / 4, 1 / 4, 1 / 4, 1 / 2, 1 / 4, 3 / 4] :: rat list"
  let ?g = "[[0, 0, 0, 0], [0, 0, 0, 0], [4, 3, 1, 2], [2, 1, 3, 4]] :: board"
  let ?rs9 = "[15 / 16, 7 / 8, 7 / 8, 7 / 8, 7 / 8, 3 / 4, 3 / 4, 1 / 2,
      1 / 4, 1 / 8, 0, 3 / 8, 1 / 4, 0, 3 / 4, 1 / 2,
      5 / 8, 1 / 2, 1 / 2, 3 / 8, 1 / 4, 0, 3 / 4, 1 / 2,
      63 / 64,
      0, 0, 0, 1 / 8, 0, 1 / 4, 0, 3 / 8, 0, 1 / 2, 0, 5 / 8, 0, 3 / 4, 0, 7 / 8, 0, 15 / 16,
      1 / 8, 0, 1 / 8, 1 / 8, 1 / 8, 1 / 4, 1 / 8, 3 / 8, 1 / 8, 1 / 2, 1 / 8, 5 / 8, 1 / 8, 3 / 4,
      1 / 8, 7 / 8, 1 / 8, 15 / 16,
      1 / 4, 0, 1 / 4, 1 / 8, 1 / 4, 1 / 4, 1 / 4, 3 / 8, 1 / 4, 1 / 2, 1 / 4, 5 / 8, 1 / 4, 3 / 4,
      1 / 4, 7 / 8, 1 / 4, 15 / 16,
      3 / 8, 0, 3 / 8, 1 / 8, 3 / 8, 1 / 4, 3 / 8, 3 / 8, 3 / 8, 1 / 2, 3 / 8, 5 / 8, 3 / 8, 3 / 4,
      3 / 8, 7 / 8, 3 / 8, 15 / 16,
      1 / 2, 0, 1 / 2, 1 / 8, 1 / 2, 1 / 4, 1 / 2, 3 / 8, 1 / 2, 1 / 2] :: rat list"
  let ?g9 = "[[0, 0, 0, 0, 0, 0, 0, 0, 0], [0, 0, 0, 0, 0, 0, 0, 0, 0], [0, 0, 0, 0, 0, 0, 0, 0, 0],
           [0, 0, 0, 0, 0, 0, 0, 0, 0], [0, 0, 0, 0, 0, 9, 5, 3, 2], [5, 9, 7, 1, 2, 3, 8, 6, 4],
           [3, 4, 2, 6, 1, 5, 7, 8, 9], [8, 6, 5, 9, 7, 4, 1, 2, 3], [9, 7, 1, 8, 3, 2, 4, 5, 6]] :: board"
  let ?rs16 = "replicate 60 (15 / 16) @ (1 - 1 / 2 ^ 53) #
      concat (map (\<lambda>(r, c). [of_nat r / 16, of_nat c / 16]) (List.product [0..<8] [0..<16]))
      :: rat list"
  have wf: "isBoard ?b" by code_simp
  have conflict: "hasConflict ?b" by code_simp
  have ok: "randomsOk ?rs" by (rule generatePuzzle_4_run(1))
  have gen: "generatePuzzle 4 ?rs = Some ?g" by (rule generatePuzzle_4_run(4))
  have gen9: "generatePuzzle 9 ?rs9 = Some ?g9" by (rule generatePuzzle_9_run(3))
  from generatePuzzle_16_run(3) obtain g16 where gen16: "generatePuzzle 16 ?rs16 = Some g16"
    by blast
  have side: "(4::nat) \<in> {4, 9, 16}" and side9: "(9::nat) \<in> {4, 9, 16}"
    and side16: "(16::nat) \<in> {4, 9, 16}" by simp_all
  note t = isValidSudoku_verdicts[of ?b 4 4 ?rs ?g]
  have r1: "isValidSudoku ?b = Some (False, ?b)"
    by (rule t[THEN conjunct1, rule_format, OF conjI[OF wf conflict]])
  have r2: "isValidSudoku (replicate 4 (replicate 4 0)) = Some (True, replicate 4 (replicate 4 0))"
    by (rule t[THEN conjunct2, THEN conjunct1])
  have r3: "isValidSudoku ?g = Some (True, ?g)"
    by (rule t[THEN conjunct2, THEN conjunct2, rule_format, OF conjI[OF side conjI[OF ok gen]]])
  have r4: "isValidSudoku ?g9 = Some (True, ?g9)"
    by (rule isValidSudoku_verdicts[of ?b 4 9 ?rs9 ?g9, THEN conjunct2, THEN conjunct2,
          rule_format, OF conjI[OF side9 conjI[OF generatePuzzle_9_run(1) gen9]]])
  have "isValidSudoku g16 = Some (True, g16)"
    by (rule isValidSudoku_verdicts[of ?b 4 16 ?rs16 g16, THEN conjunct2, THEN conjunct2,
          rule_format, OF conjI[OF side16 conjI[OF generatePuzzle_16_run(1) gen16]]])
  with gen16 have r5: "\<exists>g. generatePuzzle 16 ?rs16 = Some g \<and> isValidSudoku g = Some (True, g)"
    by blast
  show ?thesis by (intro conjI r1 r2 gen r3 gen9 r4 r5)
qed

text \<open>
  C8, as the specification states it: whatever the random source yields, the returned board
  has exactly \<open>\<lfloor>N * N * r\<rfloor>\<close> non-zero cells for some \<open>r\<close> in \<open>[0.3, 0.5)\<close>. The source does not
  keep \<open>r\<close> below \<open>0.5\<close>: at the largest double below \<open>1\<close> the double sum \<^verbatim>\<open>0.3 + u * 0.2\<close> is
  \<open>0.5\<close>, and the board returned for side \<open>4\<close> in the run above holds \<open>8\<close> of its \<open>16\<close> cells.
\<close>

theorem generatePuzzle_4_half_filled:
  "randomsOk
     [3 / 4, 3 / 4, 1 / 2, 3 / 4, 3 / 4, 1 / 2, 1 - 1 / 2 ^ 53, 0, 0, 0, 1 / 4, 0, 1 / 2, 0,
      3 / 4, 1 / 4, 0, 1 / 4, 1 / 4, 1 / 4, 1 / 2, 1 / 4, 3 / 4] \<and>
   generatePuzzle 4
     [3 / 4, 3 / 4, 1 / 2, 3 / 4, 3 / 4, 1 / 2, 1 - 1 / 2 ^ 53, 0, 0, 0, 1 / 4, 0, 1 / 2, 0,
      3 / 4, 1 / 4, 0, 1 / 4, 1 / 4, 1 / 4, 1 / 2, 1 / 4, 3 / 4] =
     Some [[0, 0, 0, 0], [0, 0, 0, 0], [4, 3, 1, 2], [2, 1, 3, 4]] \<and>
   filledCells [[0, 0, 0, 0], [0, 0, 0, 0], [4, 3, 1, 2], [2, 1, 3, 4]] = 8 \<and>
   \<not> (\<exists>r::real. 3 / 10 \<le> r \<and> r < 1 / 2 \<and>
         int (filledCells [[0, 0, 0, 0], [0, 0, 0, 0], [4, 3, 1, 2], [2, 1, 3, 4]]) = \<lfloor>of_nat (4 * 4) * r\<rfloor>)"
proof -
  let ?g = "[[0, 0, 0, 0], [0, 0, 0, 0], [4, 3, 1, 2], [2, 1, 3, 4]] :: board"
  have cnt: "filledCells ?g = 8" by code_simp
  have none: "\<not> (\<exists>r::real. 3 / 10 \<le> r \<and> r < 1 / 2 \<and> int (filledCells ?g) = \<lfloor>of_nat (4 * 4) * r\<rfloor>)"
  proof
    assume "\<exists>r::real. 3 / 10 \<le> r \<and> r < 1 / 2 \<and> int (filledCells ?g) = \<lfloor>of_nat (4 * 4) * r\<rfloor>"
    then obtain r :: real where r: "r < 1 / 2" and eq: "int (filledCells ?g) = \<lfloor>of_nat (4 * 4) * r\<rfloor>"
      by blast
    from r have "of_nat (4 * 4) * r < 8" by simp
    then have "\<lfloor>of_nat (4 * 4) * r\<rfloor> < 8" by (simp add: floor_less_iff)
    with eq cnt show False by simp
  qed
  show ?thesis by (intro conjI generatePuzzle_4_run(1) generatePuzzle_4_run(4) cnt none)
qed

text \<open>
  C8, amended: for a supported side, whatever the random source yields, a board returned by
  the generator from a grid the solver has completed (for the sides \<open>9\<close> and \<open>16\<close> every
  returned board is) has exactly \<^verbatim>\<open>cellsToKeep\<close> non-zero cells, the number the source computes
  in double precision from the value \<open>u\<close> drawn after the shuffles. That number is
  \<open>\<lfloor>N * N * r\<rfloor>\<close> for some \<open>r\<close> in \<open>[0.3, 0.5]\<close>, the bound \<open>0.5\<close> included; for side \<open>9\<close> the count
  lies between \<open>round (81 * 0.3)\<close> and \<open>round (81 * 0.5)\<close>.
\<close>

theorem generatePuzzle_filled_count:
  assumes "sz \<in> {4, 9, 16}" and "randomsOk rs" and "generatePuzzle sz rs = Some g"
    and "seedDiagonal (replicate sz (replicate sz 0)) 0 sz rs = Some (seeded, u # rs2)"
    and "sz = 4 \<longrightarrow> solved (solveSudoku seeded)"
  shows "int (filledCells g) = cellsToKeep sz u \<and>
         (\<exists>r::real. 3 / 10 \<le> r \<and> r \<le> 1 / 2 \<and> int (filledCells g) = \<lfloor>of_nat (sz * sz) * r\<rfloor>) \<and>
         (sz = 9 \<longrightarrow> round (81 * (3 / 10) :: real) \<le> int (filledCells g) \<and>
                     int (filledCells g) \<le> round (81 * (1 / 2) :: real))"
proof -
  note count = generatePuzzle_count[OF assms(1-4)]
  have is_solved: "solved (solveSudoku seeded)"
  proof (cases "sz = 4")
    case True
    with assms(5) show ?thesis by simp
  next
    case False
    with count(2) show ?thesis by blast
  qed
  from count(1)[OF is_solved] have cnt: "int (filledCells g) = cellsToKeep sz u" .
  note range = cellsToKeep_range[OF assms(1) count(3,4)]
  define keep where "keep = cellsToKeep sz u"
  define n2 :: real where "n2 = of_nat (sz * sz)"
  from assms(1) have "0 < sz" by auto
  then have n2: "0 < n2" by (simp add: n2_def)
  from range(1) have lo: "\<lfloor>n2 * (3 / 10)\<rfloor> \<le> keep" by (simp only: keep_def n2_def)
  from range(2) have "of_int (2 * keep) \<le> (of_int (int (sz * sz)) :: real)"
    unfolding keep_def by (simp only: of_int_le_iff)
  then have hi: "2 * of_int keep \<le> n2" by (simp add: n2_def)
  have "\<exists>r::real. 3 / 10 \<le> r \<and> r \<le> 1 / 2 \<and> keep = \<lfloor>n2 * r\<rfloor>"
  proof (cases "n2 * (3 / 10) \<le> of_int keep")
    case True
    define r where "r = of_int keep / n2"
    have "n2 * r = of_int keep" using n2 by (simp add: r_def)
    then have "keep = \<lfloor>n2 * r\<rfloor>" by simp
    moreover have "3 / 10 \<le> r" using True n2 by (simp add: r_def pos_le_divide_eq mult.commute)
    moreover have "r \<le> 1 / 2" using hi n2 by (simp add: r_def pos_divide_le_eq)
    ultimately show ?thesis by blast
  next
    case False
    then have "of_int keep < n2 * (3 / 10)" by simp
    then have "keep \<le> \<lfloor>n2 * (3 / 10)\<rfloor>" by (simp add: le_floor_iff)
    with lo have "keep = \<lfloor>n2 * (3 / 10)\<rfloor>" by simp
    then show ?thesis by (intro exI[of _ "3 / 10"]) simp
  qed
  with cnt have first: "\<exists>r::real. 3 / 10 \<le> r \<and> r \<le> 1 / 2 \<and>
      int (filledCells g) = \<lfloor>of_nat (sz * sz) * r\<rfloor>"
    by (simp only: keep_def n2_def)
  have second: "round (81 * (3 / 10) :: real) \<le> int (filledCells g) \<and>
      int (filledCells g) \<le> round (81 * (1 / 2) :: real)" if "sz = 9"
  proof -
    have lo9: "round (81 * (3 / 10) :: real) = 24" and hi9: "round (81 * (1 / 2) :: real) = 41"
      unfolding round_def by (simp_all add: floor_eq_iff)
    from range(3)[OF that] cnt show ?thesis unfolding lo9 hi9 by simp
  qed
  from cnt first second show ?thesis by blast
qed

theorem generatePuzzle_filled_count_witness:
  "generatePuzzle 9
     [15 / 16, 7 / 8, 7 / 8, 7 / 8, 7 / 8, 3 / 4, 3 / 4, 1 / 2,
      1 / 4, 1 / 8, 0, 3 / 8, 1 / 4, 0, 3 / 4, 1 / 2,
      5 / 8, 1 / 2, 1 / 2, 3 / 8, 1 / 4, 0, 3 / 4, 1 / 2,
      63 / 64,
      0, 0, 0, 1 / 8, 0, 1 / 4, 0, 3 / 8, 0, 1 / 2, 0, 5 / 8, 0, 3 / 4, 0, 7 / 8, 0, 15 / 16,
      1 / 8, 0, 1 / 8, 1 / 8, 1 / 8, 1 / 4, 1 / 8, 3 / 8, 1 / 8, 1 / 2, 1 / 8, 5 / 8, 1 / 8, 3 / 4,
      1 / 8, 7 / 8, 1 / 8, 15 / 16,
      1 / 4, 0, 1 / 4, 1 / 8, 1 / 4, 1 / 4, 1 / 4, 3 / 8, 1 / 4, 1 / 2, 1 / 4, 5 / 8, 1 / 4, 3 / 4,
      1 / 4, 7 / 8, 1 / 4, 15 / 16,
      3 / 8, 0, 3 / 8, 1 / 8, 3 / 8, 1 / 4, 3 / 8, 3 / 8, 3 / 8, 1 / 2, 3 / 8, 5 / 8, 3 / 8, 3 / 4,
      3 / 8, 7 / 8, 3 / 8, 15 / 16,
      1 / 2, 0, 1 / 2, 1 / 8, 1 / 2, 1 / 4, 1 / 2, 3 / 8, 1 / 2, 1 / 2] =
     Some [[0, 0, 0, 0, 0, 0, 0, 0, 0], [0, 0, 0, 0, 0, 0, 0, 0, 0], [0, 0, 0, 0, 0, 0, 0, 0, 0],
           [0, 0, 0, 0, 0, 0, 0, 0, 0], [0, 0, 0, 0, 0, 9, 5, 3, 2], [5, 9, 7, 1, 2, 3, 8, 6, 4],
           [3, 4, 2, 6, 1, 5, 7, 8, 9], [8, 6, 5, 9, 7, 4, 1, 2, 3], [9, 7, 1, 8, 3, 2, 4, 5, 6]] \<and>
   int (filledCells [[0, 0, 0, 0, 0, 0, 0, 0, 0], [0, 0, 0, 0, 0, 0, 0, 0, 0], [0, 0, 0, 0, 0, 0, 0, 0, 0],
           [0, 0, 0, 0, 0, 0, 0, 0, 0], [0, 0, 0, 0, 0, 9, 5, 3, 2], [5, 9, 7, 1, 2, 3, 8, 6, 4],
           [3, 4, 2, 6, 1, 5, 7, 8, 9], [8, 6, 5, 9, 7, 4, 1, 2, 3], [9, 7, 1, 8, 3, 2, 4, 5, 6]]) = cellsToKeep 9 (63 / 64) \<and>
   cellsToKeep 9 (63 / 64) = 40 \<and>
   round (81 * (3 / 10) :: real) \<le> int (filledCells [[0, 0, 0, 0, 0, 0, 0, 0, 0], [0, 0, 0, 0, 0, 0, 0, 0, 0], [0, 0, 0, 0, 0, 0, 0, 0, 0],
           [0, 0, 0, 0, 0, 0, 0, 0, 0], [0, 0, 0, 0, 0, 9, 5, 3, 2], [5, 9, 7, 1, 2, 3, 8, 6, 4],
           [3, 4, 2, 6, 1, 5, 7, 8, 9], [8, 6, 5, 9, 7, 4, 1, 2, 3], [9, 7, 1, 8, 3, 2, 4, 5, 6]]) \<and>
   int (filledCells [[0, 0, 0, 0, 0, 0, 0, 0, 0], [0, 0, 0, 0, 0, 0, 0, 0, 0], [0, 0, 0, 0, 0, 0, 0, 0, 0],
           [0, 0, 0, 0, 0, 0, 0, 0, 0], [0, 0, 0, 0, 0, 9, 5, 3, 2], [5, 9, 7, 1, 2, 3, 8, 6, 4],
           [3, 4, 2, 6, 1, 5, 7, 8, 9], [8, 6, 5, 9, 7, 4, 1, 2, 3], [9, 7, 1, 8, 3, 2, 4, 5, 6]]) \<le> round (81 * (1 / 2) :: real) \<and>
   generatePuzzle 4
     [3 / 4, 3 / 4, 1 / 2, 3 / 4, 3 / 4, 1 / 2, 1 - 1 / 2 ^ 53, 0, 0, 0, 1 / 4, 0, 1 / 2, 0,
      3 / 4, 1 / 4, 0, 1 / 4, 1 / 4, 1 / 4, 1 / 2, 1 / 4, 3 / 4] =
     Some [[0, 0, 0, 0], [0, 0, 0, 0], [4, 3, 1, 2], [2, 1, 3, 4]] \<and>
   int (filledCells [[0, 0, 0, 0], [0, 0, 0, 0], [4, 3, 1, 2], [2, 1, 3, 4]]) = cellsToKeep 4 (1 - 1 / 2 ^ 53) \<and>
   (\<exists>r::real. 3 / 10 \<le> r \<and> r \<le> 1 / 2 \<and>
      int (filledCells [[0, 0, 0, 0], [0, 0, 0, 0], [4, 3, 1, 2], [2, 1, 3, 4]]) = \<lfloor>of_nat (4 * 4) * r\<rfloor>) \<and>
   (\<exists>g. generatePuzzle 16
      (replicate 60 (15 / 16) @ (1 - 1 / 2 ^ 53) #
      concat (map (\<lambda>(r, c). [of_nat r / 16, of_nat c / 16]) (List.product [0..<8] [0..<16]))) =
      Some g \<and> int (filledCells g) = cellsToKeep 16 (1 - 1 / 2 ^ 53)) \<and>
   cellsToKeep 16 (1 - 1 / 2 ^ 53) = 128"
proof -
  let ?rs16 = "replicate 60 (15 / 16) @ (1 - 1 / 2 ^ 53) #
      concat (map (\<lambda>(r, c). [of_nat r / 16, of_nat c / 16]) (List.product [0..<8] [0..<16]))
      :: rat list"
  let ?rs9 = "[15 / 16, 7 / 8, 7 / 8, 7 / 8, 7 / 8, 3 / 4, 3 / 4, 1 / 2,
      1 / 4, 1 / 8, 0, 3 / 8, 1 / 4, 0, 3 / 4, 1 / 2,
      5 / 8, 1 / 2, 1 / 2, 3 / 8, 1 / 4, 0, 3 / 4, 1 / 2,
      63 / 64,
      0, 0, 0, 1 / 8, 0, 1 / 4, 0, 3 / 8, 0, 1 / 2, 0, 5 / 8, 0, 3 / 4, 0, 7 / 8, 0, 15 / 16,
      1 / 8, 0, 1 / 8, 1 / 8, 1 / 8, 1 / 4, 1 / 8, 3 / 8, 1 / 8, 1 / 2, 1 / 8, 5 / 8, 1 / 8, 3 / 4,
      1 / 8, 7 / 8, 1 / 8, 15 / 16,
      1 / 4, 0, 1 / 4, 1 / 8, 1 / 4, 1 / 4, 1 / 4, 3 / 8, 1 / 4, 1 / 2, 1 / 4, 5 / 8, 1 / 4, 3 / 4,
      1 / 4, 7 / 8, 1 / 4, 15 / 16,
      3 / 8, 0, 3 / 8, 1 / 8, 3 / 8, 1 / 4, 3 / 8, 3 / 8, 3 / 8, 1 / 2, 3 / 8, 5 / 8, 3 / 8, 3 / 4,
      3 / 8, 7 / 8, 3 / 8, 15 / 16,
      1 / 2, 0, 1 / 2, 1 / 8, 1 / 2, 1 / 4, 1 / 2, 3 / 8, 1 / 2, 1 / 2] :: rat list"
  let ?g9 = "[[0, 0, 0, 0, 0, 0, 0, 0, 0], [0, 0, 0, 0, 0, 0, 0, 0, 0], [0, 0, 0, 0, 0, 0, 0, 0, 0],
           [0, 0, 0, 0, 0, 0, 0, 0, 0], [0, 0, 0, 0, 0, 9, 5, 3, 2], [5, 9, 7, 1, 2, 3, 8, 6, 4],
           [3, 4, 2, 6, 1, 5, 7, 8, 9], [8, 6, 5, 9, 7, 4, 1, 2, 3], [9, 7, 1, 8, 3, 2, 4, 5, 6]] :: board"
  let ?rs4 = "[3 / 4, 3 / 4, 1 / 2, 3 / 4, 3 / 4, 1 / 2, 1 - 1 / 2 ^ 53, 0, 0, 0, 1 / 4, 0, 1 / 2, 0,
      3 / 4, 1 / 4, 0, 1 / 4, 1 / 4, 1 / 4, 1 / 2, 1 / 4, 3 / 4] :: rat list"
  let ?g4 = "[[0, 0, 0, 0], [0, 0, 0, 0], [4, 3, 1, 2], [2, 1, 3, 4]] :: board"
  have side9: "(9::nat) \<in> {4, 9, 16}" and side4: "(4::nat) \<in> {4, 9, 16}"
    and side16: "(16::nat) \<in> {4, 9, 16}" by simp_all
  have gen9: "generatePuzzle 9 ?rs9 = Some ?g9" by (rule generatePuzzle_9_run(3))
  have gen4: "generatePuzzle 4 ?rs4 = Some ?g4" by (rule generatePuzzle_4_run(4))
  have no4: "(9::nat) = 4 \<longrightarrow> solved (solveSudoku [[1, 2, 3, 0, 0, 0, 0, 0, 0], [4, 5, 6, 0, 0, 0, 0, 0, 0], [7, 8, 9, 0, 0, 0, 0, 0, 0],
            [0, 0, 0, 4, 5, 6, 0, 0, 0], [0, 0, 0, 7, 8, 9, 0, 0, 0], [0, 0, 0, 1, 2, 3, 0, 0, 0],
            [0, 0, 0, 0, 0, 0, 7, 8, 9], [0, 0, 0, 0, 0, 0, 1, 2, 3], [0, 0, 0, 0, 0, 0, 4, 5, 6]])"
    by simp
  have yes4: "(4::nat) = 4 \<longrightarrow> solved (solveSudoku [[1, 2, 0, 0], [3, 4, 0, 0], [0, 0, 1, 2], [0, 0, 3, 4]])"
    using generatePuzzle_4_run(3) by simp
  note t9 = generatePuzzle_filled_count[OF side9 generatePuzzle_9_run(1) gen9
      generatePuzzle_9_run(2) no4]
  note t4 = generatePuzzle_filled_count[OF side4 generatePuzzle_4_run(1) gen4
      generatePuzzle_4_run(2) yes4]
  have keep9: "cellsToKeep 9 (63 / 64) = 40" by code_simp
  have c9: "int (filledCells ?g9) = cellsToKeep 9 (63 / 64)" by (rule t9[THEN conjunct1])
  have r9: "round (81 * (3 / 10) :: real) \<le> int (filledCells ?g9) \<and>
      int (filledCells ?g9) \<le> round (81 * (1 / 2) :: real)"
    by (rule t9[THEN conjunct2, THEN conjunct2, rule_format]) (rule refl)
  have c4: "int (filledCells ?g4) = cellsToKeep 4 (1 - 1 / 2 ^ 53)" by (rule t4[THEN conjunct1])
  have e4: "\<exists>r::real. 3 / 10 \<le> r \<and> r \<le> 1 / 2 \<and> int (filledCells ?g4) = \<lfloor>of_nat (4 * 4) * r\<rfloor>"
    by (rule t4[THEN conjunct2, THEN conjunct1])
  from generatePuzzle_16_run(3) obtain g16 where gen16: "generatePuzzle 16 ?rs16 = Some g16"
    by blast
  have no4': "(16::nat) = 4 \<longrightarrow> solved (solveSudoku
       [[1, 2, 3, 4, 0, 0, 0, 0, 0, 0, 0, 0, 0, 0, 0, 0],
        [5, 6, 7, 8, 0, 0, 0, 0, 0, 0, 0, 0, 0, 0, 0, 0],
        [9, 10, 11, 12, 0, 0, 0, 0, 0, 0, 0, 0, 0, 0, 0, 0],
        [13, 14, 15, 16, 0, 0, 0, 0, 0, 0, 0, 0, 0, 0, 0, 0],
        [0, 0, 0, 0, 1, 2, 3, 4, 0, 0, 0, 0, 0, 0, 0, 0],
        [0, 0, 0, 0, 5, 6, 7, 8, 0, 0, 0, 0, 0, 0, 0, 0],
        [0, 0, 0, 0, 9, 10, 11, 12, 0, 0, 0, 0, 0, 0, 0, 0],
        [0, 0, 0, 0, 13, 14, 15, 16, 0, 0, 0, 0, 0, 0, 0, 0],
        [0, 0, 0, 0, 0, 0, 0, 0, 1, 2, 3, 4, 0, 0, 0, 0],
        [0, 0, 0, 0, 0, 0, 0, 0, 5, 6, 7, 8, 0, 0, 0, 0],
        [0, 0, 0, 0, 0, 0, 0, 0, 9, 10, 11, 12, 0, 0, 0, 0],
        [0, 0, 0, 0, 0, 0, 0, 0, 13, 14, 15, 16, 0, 0, 0, 0],
        [0, 0, 0, 0, 0, 0, 0, 0, 0, 0, 0, 0, 1, 2, 3, 4],
        [0, 0, 0, 0, 0, 0, 0, 0, 0, 0, 0, 0, 5, 6, 7, 8],
        [0, 0, 0, 0, 0, 0, 0, 0, 0, 0, 0, 0, 9, 10, 11, 12],
        [0, 0, 0, 0, 0, 0, 0, 0, 0, 0, 0, 0, 13, 14, 15, 16]])"
    by simp
  note t16 = generatePuzzle_filled_count[OF side16 generatePuzzle_16_run(1) gen16
      generatePuzzle_16_run(2) no4']
  from gen16 t16[THEN conjunct1]
  have c16: "\<exists>g. generatePuzzle 16 ?rs16 = Some g \<and>
      int (filledCells g) = cellsToKeep 16 (1 - 1 / 2 ^ 53)" by blast
  show ?thesis
    by (intro conjI gen9 c9 keep9 r9[THEN conjunct1] r9[THEN conjunct2] gen4 c4 e4 c16
        cellsToKeep_greatest(3))
qed

text \<open>
  C1. The generator seeds the diagonal boxes and calls the solver without looking at its
  answer, as if the seeded board always had a completion. For side \<open>4\<close> it does not: when the
  two shuffles leave the boxes \<open>1 2 / 3 4\<close> and \<open>1 3 / 2 4\<close> (the draws below), the cell in row
  \<open>0\<close>, column \<open>3\<close> has no candidate left, and the solver returns \<open>solved = false\<close> with the
  seeded board unchanged.
\<close>

theorem generatePuzzle_4_seed_unsolved:
  "randomsOk [9 / 10, 9 / 10, 9 / 10, 9 / 10, 1 / 2, 9 / 10] \<and>
   seedDiagonal (replicate 4 (replicate 4 0)) 0 4 [9 / 10, 9 / 10, 9 / 10, 9 / 10, 1 / 2, 9 / 10] =
     Some ([[1, 2, 0, 0], [3, 4, 0, 0], [0, 0, 1, 3], [0, 0, 2, 4]], []) \<and>
   solveSudoku [[1, 2, 0, 0], [3, 4, 0, 0], [0, 0, 1, 3], [0, 0, 2, 4]] =
     \<lparr>solved = False, grid = [[1, 2, 0, 0], [3, 4, 0, 0], [0, 0, 1, 3], [0, 0, 2, 4]], steps = 3\<rparr>"
  by code_simp

text \<open>
  With those shuffles the removal loop has to clear at least as many filled cells as the
  seeded board has. Whenever \<^verbatim>\<open>cellsToKeep\<close> is below \<open>8\<close> the generator never returns,
  whatever the random source yields next; when it is \<open>8\<close> the loop can clear the eight seeded
  cells, and the board returned has no filled cell.
\<close>

lemma generatePuzzle_4_never_returns:
  assumes "randomsOk (u # rs)" and "cellsToKeep 4 u < 8"
  shows "generatePuzzle 4 ([9 / 10, 9 / 10, 9 / 10, 9 / 10, 1 / 2, 9 / 10] @ u # rs) = None"
proof (rule ccontr)
  let ?draws = "[9 / 10, 9 / 10, 9 / 10, 9 / 10, 1 / 2, 9 / 10] :: rat list"
  let ?seeded = "[[1, 2, 0, 0], [3, 4, 0, 0], [0, 0, 1, 3], [0, 0, 2, 4]] :: board"
  assume "generatePuzzle 4 (?draws @ u # rs) \<noteq> None"
  then obtain g where gen: "generatePuzzle 4 (?draws @ u # rs) = Some g" by blast
  have "seedDiagonal (replicate 4 (replicate 4 0)) 0 4 ?draws = Some (?seeded, [])"
    by code_simp
  from seedDiagonal_append[OF this, of "u # rs"]
  have sd: "seedDiagonal (replicate 4 (replicate 4 0)) 0 4 (?draws @ u # rs) =
      Some (?seeded, u # rs)" by simp
  have "randomsOk ?draws" by code_simp
  with assms(1) have ok: "randomsOk (?draws @ u # rs)" by (simp add: randomsOk_def)
  have side: "(4::nat) \<in> {4, 9, 16}" by simp
  have "\<not> solved (solveSudoku ?seeded)" by code_simp
  from generatePuzzle_count(2)[OF side ok gen sd this] assms(2) show False by simp
qed

lemma generatePuzzle_4_empty_board:
  "generatePuzzle 4
     ([9 / 10, 9 / 10, 9 / 10, 9 / 10, 1 / 2, 9 / 10] @ (1 - 1 / 2 ^ 53) #
      [0, 0, 0, 1 / 4, 1 / 4, 0, 1 / 4, 1 / 4, 1 / 2, 1 / 2, 1 / 2, 3 / 4, 3 / 4, 1 / 2, 3 / 4, 3 / 4]) =
     Some [[0, 0, 0, 0], [0, 0, 0, 0], [0, 0, 0, 0], [0, 0, 0, 0]]"
  by code_simp

end
